theory Spec2Isabelle
  imports Main "HOL-Library.Word"
begin

unbundle bit_operations_syntax

section \<open>The lasc MIDI footswitch: data model\<close>

text \<open>
  The program is C for an 8-bit STM8 microcontroller, compiled with SDCC.
  \<open>uint8_t\<close> is an \<open>8 word\<close>, \<open>uint16_t\<close> a \<open>16 word\<close> and \<open>uint32_t\<close> a
  \<open>32 word\<close>; the arithmetic of the three is unsigned and wraps around.

  The build-time options of the Makefile that change the code of \<open>lasc.c\<close> are the
  fields of \<open>variant\<close>: \<open>HAS_MODE_FS\<close> (a third, physical MODE switch),
  \<open>DONTSENDBANK\<close> (no bank message in range 0) and \<open>RESTORELASTPC\<close> (the last
  patch is kept in the EEPROM). The external LED, the two display back-ends and the
  flashing of the display (\<open>displayPatch\<close>, \<open>flashDisplay\<close>, the intensity written
  in \<open>scanFS\<close>) only produce output and are left out, as is the bring-up of clock,
  timer, port and UART. The timer interrupt is not a function of the model: the tick
  counter \<open>now\<close> it advances is an input, see \<open>sample\<close>.
\<close>

record variant =
  HAS_MODE_FS :: bool
  DONTSENDBANK :: bool
  RESTORELASTPC :: bool

subsection \<open>Constants of lasc.h\<close>

definition DEBOUNCE_THRESHOLD_MS :: "32 word" where "DEBOUNCE_THRESHOLD_MS = 50"

definition UP :: "8 word" where "UP = 0x00"
definition DOWN :: "8 word" where "DOWN = 0x01"
definition MODE :: "8 word" where "MODE = 0x02"

text \<open>
  The pin masks \<open>GPIO_PIN_3\<close>, \<open>GPIO_PIN_4\<close> and \<open>GPIO_PIN_7\<close> come from the
  STM8S peripheral library (\<open>stm8s_gpio.h\<close>): bit \<open>n\<close> of the port.
\<close>

definition GPIO_PIN_3 :: "8 word" where "GPIO_PIN_3 = 0x08"
definition GPIO_PIN_4 :: "8 word" where "GPIO_PIN_4 = 0x10"
definition GPIO_PIN_7 :: "8 word" where "GPIO_PIN_7 = 0x80"

definition PATCH_UP_FS_PIN :: "8 word" where "PATCH_UP_FS_PIN = GPIO_PIN_3"
definition PATCH_DOWN_FS_PIN :: "8 word" where "PATCH_DOWN_FS_PIN = GPIO_PIN_4"

definition MODE_FS_PIN :: "variant \<Rightarrow> 8 word" where
  "MODE_FS_PIN v =
     (if HAS_MODE_FS v then GPIO_PIN_7 else PATCH_UP_FS_PIN OR PATCH_DOWN_FS_PIN)"

definition MIDI_PC :: "8 word" where "MIDI_PC = 0xC0"
definition MIDI_CC :: "8 word" where "MIDI_CC = 0xB0"

definition CHANNELOFFSET :: nat where "CHANNELOFFSET = 0"
definition RANGEOFFSET :: nat where "RANGEOFFSET = 1"
definition LASTPCMSB :: nat where "LASTPCMSB = 2"
definition LASTPCLSB :: nat where "LASTPCLSB = 3"
definition DISPLAYOFFSET :: nat where "DISPLAYOFFSET = 4"

definition MAXRANGE :: "8 word" where "MAXRANGE = 4"

definition AUTOREPEAT_OFF :: "8 word" where "AUTOREPEAT_OFF = 0x00"
definition AUTOREPEAT_ON :: "8 word" where "AUTOREPEAT_ON = 0x01"
definition AUTOREPEAT_FAST_AFTER :: "32 word" where "AUTOREPEAT_FAST_AFTER = 1000"
definition AUTOREPEAT_AFTER_MS :: "16 word" where "AUTOREPEAT_AFTER_MS = 300"
definition AUTOREPEAT_FAST_MS :: "16 word" where "AUTOREPEAT_FAST_MS = 60"

text \<open>\<open>footSwitchState_TypeDef\<close>.\<close>

datatype footSwitchState = FS_UP | FS_DOWN | FS_SENT

text \<open>
  \<open>footSwitch_TypeDef\<close>. The field \<open>pin\<close> of the C struct is set by the
  initialiser of \<open>fsArr\<close> and never assigned again, so it is the constant table
  \<open>fsPin\<close> below and the record holds the three fields that change.
\<close>

record footSwitch =
  state :: footSwitchState
  timeDown :: "32 word"
  firstDown :: "32 word"

definition fsPin :: "variant \<Rightarrow> 8 word \<Rightarrow> 8 word" where
  "fsPin v i =
     (if i = UP then PATCH_UP_FS_PIN
      else if i = DOWN then PATCH_DOWN_FS_PIN
      else MODE_FS_PIN v)"

subsection \<open>The globals of lasc.c\<close>

text \<open>
  \<open>fsArr\<close> is the array of the three switches, indexed by \<open>UP\<close>, \<open>DOWN\<close> and
  \<open>MODE\<close>. The EEPROM is a map from byte offsets (relative to
  \<open>FLASH_DATA_START_PHYSICAL_ADDRESS\<close>) to bytes; \<open>eepromLog\<close> records every
  \<open>writeEepromByte\<close> in order, and \<open>uart\<close> every byte handed to
  \<open>UART1_SendData8\<close> in order.
\<close>

record lasc =
  fsArr :: "8 word \<Rightarrow> footSwitch"
  midiChannel :: "8 word"
  midiPatchNo :: "16 word"
  range_ix :: "8 word"
  showZeroBased :: "8 word"
  eeprom :: "nat \<Rightarrow> 8 word"
  eepromLog :: "(nat \<times> 8 word) list"
  uart :: "8 word list"

definition sendMIDIBank :: "variant \<Rightarrow> 8 word" where
  "sendMIDIBank v = (if DONTSENDBANK v then 0 else 1)"

definition maxPatch :: "16 word list" where
  "maxPatch = [127, 199, 299, 799, 998]"

section \<open>EEPROM access\<close>

definition readEepromByte :: "lasc \<Rightarrow> nat \<Rightarrow> 8 word" where
  "readEepromByte st addr = eeprom st addr"

text \<open>
  \<open>writeEepromByte\<close> programs the byte and reads it back; its result (a mismatch) is
  ignored by every caller, and the store is taken to hold the byte written.
\<close>

definition writeEepromByte :: "nat \<Rightarrow> 8 word \<Rightarrow> lasc \<Rightarrow> lasc" where
  "writeEepromByte addr val st =
     st\<lparr>eeprom := (eeprom st)(addr := val), eepromLog := eepromLog st @ [(addr, val)]\<rparr>"

section \<open>The MIDI encoder\<close>

definition UART1_SendData8 :: "8 word \<Rightarrow> lasc \<Rightarrow> lasc" where
  "UART1_SendData8 b st = st\<lparr>uart := uart st @ [b]\<rparr>"

definition sendMidiPC :: "variant \<Rightarrow> 16 word \<Rightarrow> lasc \<Rightarrow> lasc" where
  "sendMidiPC v patch st =
     (let st1 =
        (if sendMIDIBank v \<noteq> 0 \<or> range_ix st \<noteq> 0
         then UART1_SendData8 (ucast (patch div 128))
                (UART1_SendData8 0x00
                  (UART1_SendData8 (MIDI_CC OR midiChannel st) st))
         else st);
          st2 = UART1_SendData8 (ucast (patch mod 128))
                  (UART1_SendData8 (MIDI_PC OR midiChannel st1) st1)
      in if RESTORELASTPC v
         then writeEepromByte LASTPCLSB (ucast (patch AND 0xFF))
                (writeEepromByte LASTPCMSB (ucast (drop_bit 8 patch AND 0xFF)) st2)
         else st2)"

section \<open>Configuration: load, edit, save\<close>

text \<open>The first three statements of \<open>manageConfig\<close>.\<close>

definition loadConfig :: "lasc \<Rightarrow> lasc" where
  "loadConfig st =
     st\<lparr>midiChannel := readEepromByte st CHANNELOFFSET AND 0x0F,
        range_ix := readEepromByte st RANGEOFFSET mod (MAXRANGE + 1),
        showZeroBased := readEepromByte st DISPLAYOFFSET AND 0x01\<rparr>"

text \<open>The last statement of \<open>manageConfig\<close>: write if there was a change.\<close>

definition saveConfig :: "lasc \<Rightarrow> lasc" where
  "saveConfig st =
     (if midiChannel st \<noteq> (readEepromByte st CHANNELOFFSET AND 0x0F) \<or>
         range_ix st \<noteq> readEepromByte st RANGEOFFSET \<or>
         showZeroBased st \<noteq> readEepromByte st DISPLAYOFFSET
      then writeEepromByte DISPLAYOFFSET (showZeroBased st)
             (writeEepromByte RANGEOFFSET (range_ix st)
               (writeEepromByte CHANNELOFFSET (midiChannel st) st))
      else st)"

text \<open>The cases of the \<open>switch\<close> in \<open>configMIDI\<close> and in \<open>configDisplay\<close>.\<close>

definition configMIDI_UP :: "lasc \<Rightarrow> lasc" where
  "configMIDI_UP st = st\<lparr>midiChannel := (midiChannel st + 1) mod 0x10\<rparr>"

definition configMIDI_DOWN :: "lasc \<Rightarrow> lasc" where
  "configMIDI_DOWN st = st\<lparr>midiChannel := (midiChannel st - 1) mod 0x10\<rparr>"

definition configMIDI_MODE :: "lasc \<Rightarrow> lasc" where
  "configMIDI_MODE st = st\<lparr>range_ix := (range_ix st + 1) mod (MAXRANGE + 1)\<rparr>"

definition configDisplay_toggle :: "lasc \<Rightarrow> lasc" where
  "configDisplay_toggle st = st\<lparr>showZeroBased := showZeroBased st XOR 1\<rparr>"

section \<open>Patch up and down\<close>

text \<open>
  The cases \<open>UP\<close> and \<open>DOWN\<close> of the \<open>switch\<close> in \<open>main\<close> (on the committed
  \<open>midiPatchNo\<close>, followed by \<open>sendMidiPC\<close>) and in \<open>mode2\<close> (on the local
  \<open>newPatchNo\<close>, nothing sent). The range is always a valid index of \<open>maxPatch\<close>
  when they run, see \<open>loadConfig\<close> and \<open>configMIDI_MODE\<close>.
\<close>

definition main_UP :: "variant \<Rightarrow> lasc \<Rightarrow> lasc" where
  "main_UP v st =
     (let st1 = st\<lparr>midiPatchNo := midiPatchNo st + 1\<rparr>;
          st2 = st1\<lparr>midiPatchNo := midiPatchNo st1 mod (maxPatch ! unat (range_ix st1) + 1)\<rparr>
      in sendMidiPC v (midiPatchNo st2) st2)"

definition main_DOWN :: "variant \<Rightarrow> lasc \<Rightarrow> lasc" where
  "main_DOWN v st =
     (let st1 = st\<lparr>midiPatchNo := midiPatchNo st - 1\<rparr>;
          st2 = (if midiPatchNo st1 > maxPatch ! unat (range_ix st1)
                 then st1\<lparr>midiPatchNo := maxPatch ! unat (range_ix st1)\<rparr>
                 else st1)
      in sendMidiPC v (midiPatchNo st2) st2)"

definition mode2_UP :: "lasc \<Rightarrow> 16 word \<Rightarrow> 16 word" where
  "mode2_UP st newPatchNo = (newPatchNo + 1) mod (maxPatch ! unat (range_ix st) + 1)"

definition mode2_DOWN :: "lasc \<Rightarrow> 16 word \<Rightarrow> 16 word" where
  "mode2_DOWN st newPatchNo =
     (if newPatchNo - 1 > maxPatch ! unat (range_ix st)
      then maxPatch ! unat (range_ix st)
      else newPatchNo - 1)"

section \<open>The switch scanner\<close>

text \<open>
  \<open>scanFS\<close> polls: every pass of its \<open>while\<close> loop reads the tick counter
  \<open>now\<close> (advanced by the timer interrupt, once per millisecond, wrapping) and the
  input port of the switches. A \<open>sample\<close> is what one pass reads: the model gives a
  pass one value of \<open>now\<close> and one value of the port, and a run of the program is
  driven by the list of the samples of its passes, in order. Every read of the
  32-bit counter is taken as atomic, and the reads within one pass as equal. A switch
  is closed when its line reads low.
\<close>

record sample =
  now :: "32 word"
  gpio :: "8 word"

definition is_closed :: "variant \<Rightarrow> sample \<Rightarrow> 8 word \<Rightarrow> bool" where
  "is_closed v s i = (gpio s AND fsPin v i = 0x00)"

text \<open>
  The statement \<open>switch (fsArr[i].state)\<close> of \<open>scanFS\<close>, for a switch read closed,
  on the tick \<open>tnow\<close> read from \<open>now\<close>, the local \<open>autoRepeatPeriod\<close> and the
  entry \<open>fsArr[i]\<close>. The first component of the result is \<open>True\<close> where the C
  code executes \<open>return i\<close>. The comparisons are unsigned and 32 bits wide, the
  subtraction wraps.
\<close>

definition scanFS_switch ::
  "8 word \<Rightarrow> 32 word \<Rightarrow> 16 word \<Rightarrow> footSwitch \<Rightarrow> bool \<times> 16 word \<times> footSwitch" where
  "scanFS_switch autoRepeat tnow autoRepeatPeriod sw =
     (case state sw of
        FS_UP \<Rightarrow>
          (False, autoRepeatPeriod,
           sw\<lparr>state := FS_DOWN, timeDown := tnow, firstDown := tnow\<rparr>)
      | FS_DOWN \<Rightarrow>
          if tnow - timeDown sw > DEBOUNCE_THRESHOLD_MS
          then (True, autoRepeatPeriod, sw\<lparr>state := FS_SENT, timeDown := tnow\<rparr>)
          else (False, autoRepeatPeriod, sw)
      | FS_SENT \<Rightarrow>
          if autoRepeat = AUTOREPEAT_OFF then (False, autoRepeatPeriod, sw)
          else
            (let period = (if tnow - firstDown sw > AUTOREPEAT_FAST_AFTER
                           then AUTOREPEAT_FAST_MS else autoRepeatPeriod)
             in if tnow - timeDown sw > ucast period
                then (True, period, sw\<lparr>timeDown := tnow\<rparr>)
                else (False, period, sw)))"

text \<open>
  The body of the \<open>for\<close> loop of \<open>scanFS\<close> for switch \<open>i\<close>, on the local
  \<open>autoRepeatPeriod\<close> and the array \<open>fsArr\<close>: in the two-switch build the entries of
  \<open>UP\<close> and \<open>DOWN\<close> are reset when the MODE line (both switches) reads closed, then
  the \<open>switch\<close> statement runs; a switch read open is reset and the period with it.
  The first component of the result is \<open>Some i\<close> where the C code executes
  \<open>return i\<close>.
\<close>

definition scanFS_body ::
  "variant \<Rightarrow> 8 word \<Rightarrow> sample \<Rightarrow> 8 word \<Rightarrow> 16 word \<times> (8 word \<Rightarrow> footSwitch)
     \<Rightarrow> 8 word option \<times> 16 word \<times> (8 word \<Rightarrow> footSwitch)" where
  "scanFS_body v autoRepeat s i = (\<lambda>(autoRepeatPeriod, fs0).
     if is_closed v s i
     then
       (let fs = (if \<not> HAS_MODE_FS v \<and> i = MODE
                  then (fs0(UP := (fs0 UP)\<lparr>state := FS_UP\<rparr>))
                          (DOWN := (fs0 DOWN)\<lparr>state := FS_UP\<rparr>)
                  else fs0)
        in case scanFS_switch autoRepeat (now s) autoRepeatPeriod (fs i) of
             (returned, period, sw) \<Rightarrow>
               (if returned then Some i else None, period, fs(i := sw)))
     else (None, AUTOREPEAT_AFTER_MS, fs0(i := (fs0 i)\<lparr>state := FS_UP\<rparr>)))"

text \<open>The \<open>for\<close> loop over the switches, left at the first \<open>return\<close>.\<close>

fun scanFS_for ::
  "variant \<Rightarrow> 8 word \<Rightarrow> sample \<Rightarrow> 8 word list \<Rightarrow> 16 word \<times> (8 word \<Rightarrow> footSwitch)
     \<Rightarrow> 8 word option \<times> 16 word \<times> (8 word \<Rightarrow> footSwitch)" where
  "scanFS_for v autoRepeat s [] loc = (None, loc)"
| "scanFS_for v autoRepeat s (i # is) loc =
     (case scanFS_body v autoRepeat s i loc of
        (Some r, loc') \<Rightarrow> (Some r, loc')
      | (None, loc') \<Rightarrow> scanFS_for v autoRepeat s is loc')"

text \<open>
  The \<open>while (1)\<close> loop: one pass per sample. The result is \<open>Some 0xFF\<close> on a
  timeout, \<open>Some i\<close> for switch \<open>i\<close>, and \<open>None\<close> when the samples end with the
  loop still polling. The samples left over are returned for the next call.
\<close>

fun scanFS_while ::
  "variant \<Rightarrow> 8 word \<Rightarrow> 16 word \<Rightarrow> 32 word \<Rightarrow> 16 word \<times> (8 word \<Rightarrow> footSwitch)
     \<Rightarrow> sample list \<Rightarrow> 8 word option \<times> (8 word \<Rightarrow> footSwitch) \<times> sample list" where
  "scanFS_while v autoRepeat timeoutMs startScan loc [] = (None, snd loc, [])"
| "scanFS_while v autoRepeat timeoutMs startScan loc (s # ss) =
     (if timeoutMs > 0 \<and> now s - startScan > ucast timeoutMs
      then (Some 0xFF, snd loc, ss)
      else case scanFS_for v autoRepeat s [UP, DOWN, MODE] loc of
             (Some r, loc') \<Rightarrow> (Some r, snd loc', ss)
           | (None, loc') \<Rightarrow> scanFS_while v autoRepeat timeoutMs startScan loc' ss)"

text \<open>
  \<open>scanFS\<close>: \<open>autoRepeatPeriod\<close> starts at \<open>AUTOREPEAT_AFTER_MS\<close> and
  \<open>startScan\<close> at the tick of the first pass.
\<close>

definition scanFS ::
  "variant \<Rightarrow> 8 word \<Rightarrow> 16 word \<Rightarrow> lasc \<Rightarrow> sample list
     \<Rightarrow> 8 word option \<times> lasc \<times> sample list" where
  "scanFS v autoRepeat timeoutMs st ss =
     (case ss of
        [] \<Rightarrow> (None, st, [])
      | s # _ \<Rightarrow>
          (case scanFS_while v autoRepeat timeoutMs (now s) (AUTOREPEAT_AFTER_MS, fsArr st) ss of
             (r, fs, rest) \<Rightarrow> (r, st\<lparr>fsArr := fs\<rparr>, rest)))"

section \<open>The loops that call the scanner\<close>

text \<open>
  Each loop returns a flag (\<open>True\<close>: the C function returned; \<open>False\<close>: the samples
  ended inside it), the state and the samples left over.
\<close>

text \<open>The \<open>while (i)\<close> loop of \<open>mode2\<close>, with the local \<open>newPatchNo\<close>.\<close>

function mode2_while ::
  "variant \<Rightarrow> 16 word \<Rightarrow> lasc \<Rightarrow> sample list \<Rightarrow> bool \<times> 16 word \<times> lasc \<times> sample list" where
  "mode2_while v newPatchNo st ss =
     (case scanFS v AUTOREPEAT_ON 0 st ss of
        (None, st', rest) \<Rightarrow> (False, newPatchNo, st', rest)
      | (Some r, st', rest) \<Rightarrow>
          if r = UP then mode2_while v (mode2_UP st' newPatchNo) st' rest
          else if r = DOWN then mode2_while v (mode2_DOWN st' newPatchNo) st' rest
          else if r = MODE then (True, newPatchNo, st', rest)
          else mode2_while v newPatchNo st' rest)"
  by pat_completeness auto
termination
proof -
  have w: "scanFS_while v a t s0 loc ss = (Some r, fs, rest) \<Longrightarrow> length rest < length ss"
    for v a t s0 loc ss r fs rest
    by (induction ss arbitrary: loc)
       (auto simp del: scanFS_for.simps split: if_splits prod.splits option.splits
          intro: less_SucI)
  have s: "scanFS v a t st ss = (Some r, st', rest) \<Longrightarrow> length rest < length ss"
    for v a t st ss r st' rest
    by (auto simp: scanFS_def simp del: scanFS_while.simps split: list.splits prod.splits
          dest: w)
  show ?thesis
    by (relation "measure (\<lambda>(v, n, st, ss). length ss)") (auto dest: s [OF sym])
qed

definition mode2 :: "variant \<Rightarrow> lasc \<Rightarrow> sample list \<Rightarrow> bool \<times> lasc \<times> sample list" where
  "mode2 v st ss =
     (case mode2_while v (midiPatchNo st) st ss of
        (True, newPatchNo, st', rest) \<Rightarrow>
          (True, sendMidiPC v newPatchNo (st'\<lparr>midiPatchNo := newPatchNo\<rparr>), rest)
      | (False, newPatchNo, st', rest) \<Rightarrow> (False, st', rest))"

function configDisplay :: "variant \<Rightarrow> lasc \<Rightarrow> sample list \<Rightarrow> bool \<times> lasc \<times> sample list" where
  "configDisplay v st ss =
     (case scanFS v AUTOREPEAT_OFF 3000 st ss of
        (None, st', rest) \<Rightarrow> (False, st', rest)
      | (Some r, st', rest) \<Rightarrow>
          if r = UP \<or> r = DOWN then configDisplay v (configDisplay_toggle st') rest
          else (True, st', rest))"
  by pat_completeness auto
termination
proof -
  have w: "scanFS_while v a t s0 loc ss = (Some r, fs, rest) \<Longrightarrow> length rest < length ss"
    for v a t s0 loc ss r fs rest
    by (induction ss arbitrary: loc)
       (auto simp del: scanFS_for.simps split: if_splits prod.splits option.splits
          intro: less_SucI)
  have s: "scanFS v a t st ss = (Some r, st', rest) \<Longrightarrow> length rest < length ss"
    for v a t st ss r st' rest
    by (auto simp: scanFS_def simp del: scanFS_while.simps split: list.splits prod.splits
          dest: w)
  show ?thesis
    by (relation "measure (\<lambda>(v, st, ss). length ss)") (auto dest: s [OF sym])
qed

function configMIDI :: "variant \<Rightarrow> lasc \<Rightarrow> sample list \<Rightarrow> bool \<times> lasc \<times> sample list" where
  "configMIDI v st ss =
     (case scanFS v AUTOREPEAT_OFF 3000 st ss of
        (None, st', rest) \<Rightarrow> (False, st', rest)
      | (Some r, st', rest) \<Rightarrow>
          if r = UP then configMIDI v (configMIDI_UP st') rest
          else if r = DOWN then configMIDI v (configMIDI_DOWN st') rest
          else if r = MODE then configMIDI v (configMIDI_MODE st') rest
          else (True, st', rest))"
  by pat_completeness auto
termination
proof -
  have w: "scanFS_while v a t s0 loc ss = (Some r, fs, rest) \<Longrightarrow> length rest < length ss"
    for v a t s0 loc ss r fs rest
    by (induction ss arbitrary: loc)
       (auto simp del: scanFS_for.simps split: if_splits prod.splits option.splits
          intro: less_SucI)
  have s: "scanFS v a t st ss = (Some r, st', rest) \<Longrightarrow> length rest < length ss"
    for v a t st ss r st' rest
    by (auto simp: scanFS_def simp del: scanFS_while.simps split: list.splits prod.splits
          dest: w)
  show ?thesis
    by (relation "measure (\<lambda>(v, st, ss). length ss)") (auto dest: s [OF sym])
qed

definition manageConfig :: "variant \<Rightarrow> lasc \<Rightarrow> sample list \<Rightarrow> bool \<times> lasc \<times> sample list" where
  "manageConfig v st0 ss =
     (let st = loadConfig st0 in
      case scanFS v AUTOREPEAT_OFF 100 st ss of
        (None, st', rest) \<Rightarrow> (False, st', rest)
      | (Some buf, st', rest) \<Rightarrow>
          if buf = 0xFF then (True, st', rest)
          else
            (case (if buf = DOWN then configDisplay v st' rest else configMIDI v st' rest) of
               (True, st'', rest') \<Rightarrow> (True, saveConfig st'', rest')
             | (False, st'', rest') \<Rightarrow> (False, st'', rest')))"

text \<open>
  The values a caller receives that calls \<open>scanFS\<close> again after every return, as the
  four loops above and \<open>main\<close> do (none of them touches \<open>fsArr\<close> between two
  calls), until the samples end.
\<close>

function scan_events ::
  "variant \<Rightarrow> 8 word \<Rightarrow> 16 word \<Rightarrow> lasc \<Rightarrow> sample list \<Rightarrow> 8 word list \<times> lasc" where
  "scan_events v autoRepeat timeoutMs st ss =
     (case scanFS v autoRepeat timeoutMs st ss of
        (None, st', rest) \<Rightarrow> ([], st')
      | (Some r, st', rest) \<Rightarrow>
          (case scan_events v autoRepeat timeoutMs st' rest of
             (rs, st'') \<Rightarrow> (r # rs, st'')))"
  by pat_completeness auto
termination
proof -
  have w: "scanFS_while v a t s0 loc ss = (Some r, fs, rest) \<Longrightarrow> length rest < length ss"
    for v a t s0 loc ss r fs rest
    by (induction ss arbitrary: loc)
       (auto simp del: scanFS_for.simps split: if_splits prod.splits option.splits
          intro: less_SucI)
  have s: "scanFS v a t st ss = (Some r, st', rest) \<Longrightarrow> length rest < length ss"
    for v a t st ss r st' rest
    by (auto simp: scanFS_def simp del: scanFS_while.simps split: list.splits prod.splits
          dest: w)
  show ?thesis
    by (relation "measure (\<lambda>(v, a, t, st, ss). length ss)") (auto dest: s [OF sym])
qed

text \<open>
  A caller that scans with no timeout, as \<open>mode2\<close> and \<open>main\<close> do, and scans
  again after every return: each value it receives, with the tick that \<open>scanFS\<close>
  stored for it. With no timeout every \<open>return\<close> is a \<open>return i\<close> of a switch,
  and the statement before it is \<open>fsArr[i].timeDown = now\<close>, so the entry of the
  switch returned holds the tick of the pass that returned it.
\<close>

function scan_times ::
  "variant \<Rightarrow> 8 word \<Rightarrow> lasc \<Rightarrow> sample list \<Rightarrow> (8 word \<times> 32 word) list" where
  "scan_times v autoRepeat st ss =
     (case scanFS v autoRepeat 0 st ss of
        (None, st', rest) \<Rightarrow> []
      | (Some r, st', rest) \<Rightarrow>
          (r, timeDown (fsArr st' r)) # scan_times v autoRepeat st' rest)"
  by pat_completeness auto
termination
proof -
  have w: "scanFS_while v a t s0 loc ss = (Some r, fs, rest) \<Longrightarrow> length rest < length ss"
    for v a t s0 loc ss r fs rest
    by (induction ss arbitrary: loc)
       (auto simp del: scanFS_for.simps split: if_splits prod.splits option.splits
          intro: less_SucI)
  have s: "scanFS v a t st ss = (Some r, st', rest) \<Longrightarrow> length rest < length ss"
    for v a t st ss r st' rest
    by (auto simp: scanFS_def simp del: scanFS_while.simps split: list.splits prod.splits
          dest: w)
  show ?thesis
    by (relation "measure (\<lambda>(v, a, st, ss). length ss)") (auto dest: s [OF sym])
qed

text \<open>
  The working value of \<open>mode2\<close> after a list of values returned by \<open>scanFS\<close>:
  the cases \<open>UP\<close> and \<open>DOWN\<close> of its \<open>switch\<close>, every other value skipped.
\<close>

fun mode2_events :: "lasc \<Rightarrow> 16 word \<Rightarrow> 8 word list \<Rightarrow> 16 word" where
  "mode2_events st n [] = n"
| "mode2_events st n (e # es) =
     mode2_events st
       (if e = UP then mode2_UP st n else if e = DOWN then mode2_DOWN st n else n) es"

section \<open>Predicates on samples and switch entries\<close>

text \<open>Only switch \<open>k\<close> reads closed in a sample; no switch reads closed.\<close>

definition only_closed :: "variant \<Rightarrow> 8 word \<Rightarrow> sample \<Rightarrow> bool" where
  "only_closed v k s =
     (is_closed v s UP = (k = UP) \<and> is_closed v s DOWN = (k = DOWN) \<and>
      is_closed v s MODE = (k = MODE))"


text \<open>
  The effective repeat period in the specification's words: the base period (300 ms)
  until the time since the press began exceeds the acceleration threshold (1000 ms),
  the short period (60 ms) after.
\<close>

definition spec_repeat_period :: "32 word \<Rightarrow> 32 word" where
  "spec_repeat_period elapsed = (if elapsed > 1000 then 60 else 300)"

text \<open>
  In the specification's words again: an actioned switch repeats when the time since
  it last fired exceeds the effective period.
\<close>

definition spec_repeat_due :: "footSwitch \<Rightarrow> sample \<Rightarrow> bool" where
  "spec_repeat_due sw s =
     (now s - timeDown sw > spec_repeat_period (now s - firstDown sw))"

text \<open>
  The ticks at which a press fires, in the specification's words. The press began at
  tick \<open>t0\<close>; the list holds the ticks of the scan iterations that read the switch
  closed, in order; \<open>fired\<close> is the tick of the last event of the press, \<open>None\<close>
  before the first. The first event is the first tick more than the debounce threshold
  (50 ms) after the press began; every later one is the first tick at which the time
  since the last event exceeds the effective repeat period.
\<close>

fun spec_press_events :: "32 word \<Rightarrow> 32 word option \<Rightarrow> 32 word list \<Rightarrow> 32 word list" where
  "spec_press_events t0 fired [] = []"
| "spec_press_events t0 None (t # ts) =
     (if t - t0 > 50 then t # spec_press_events t0 (Some t) ts
      else spec_press_events t0 None ts)"
| "spec_press_events t0 (Some l) (t # ts) =
     (if t - l > spec_repeat_period (t - t0) then t # spec_press_events t0 (Some t) ts
      else spec_press_events t0 (Some l) ts)"

text \<open>
  A list of ticks read by a scanner that iterates at least every \<open>d\<close> ms: every tick
  is at most \<open>d\<close> after the one before it (\<open>prev\<close> before the first), and the time
  elapsed since \<open>t0\<close> never decreases (the 32-bit counter does not come round to
  \<open>t0\<close> again).
\<close>

fun polled_within :: "32 word \<Rightarrow> 32 word \<Rightarrow> 32 word \<Rightarrow> 32 word list \<Rightarrow> bool" where
  "polled_within d t0 prev [] = True"
| "polled_within d t0 prev (t # ts) =
     (prev - t0 \<le> t - t0 \<and> t - prev \<le> d \<and> polled_within d t0 t ts)"

section \<open>Power-on state and build variants\<close>

text \<open>
  The static initialisers of \<open>lasc.c\<close>: every switch \<open>{pin, FS_UP, 0, 0}\<close>, every
  scalar 0, nothing sent or written yet. The EEPROM keeps what it held.
\<close>

definition power_on :: "(nat \<Rightarrow> 8 word) \<Rightarrow> lasc" where
  "power_on rom =
     \<lparr>fsArr = (\<lambda>i. \<lparr>state = FS_UP, timeDown = 0, firstDown = 0\<rparr>),
      midiChannel = 0, midiPatchNo = 0, range_ix = 0, showZeroBased = 0,
      eeprom = rom, eepromLog = [], uart = []\<rparr>"

definition erased :: "nat \<Rightarrow> 8 word" where
  "erased = (\<lambda>a. 0)"

text \<open>The Makefile's default build (two switches, bank sent, last patch not kept).\<close>

definition default_build :: variant where
  "default_build = \<lparr>HAS_MODE_FS = False, DONTSENDBANK = False, RESTORELASTPC = False\<rparr>"

definition nobank_build :: variant where
  "nobank_build = \<lparr>HAS_MODE_FS = False, DONTSENDBANK = True, RESTORELASTPC = False\<rparr>"

definition three_switch_build :: variant where
  "three_switch_build = \<lparr>HAS_MODE_FS = True, DONTSENDBANK = False, RESTORELASTPC = False\<rparr>"

text \<open>A sample at tick \<open>t\<close> with the port reading \<open>p\<close>.\<close>

definition at_ms :: "nat \<Rightarrow> 8 word \<Rightarrow> sample" where
  "at_ms t p = \<lparr>now = of_nat t, gpio = p\<rparr>"

section \<open>Arithmetic of the range table\<close>

lemma maxPatch_nth:
  assumes "unat (r::8 word) < 5"
  shows "maxPatch ! unat r \<in> {127, 199, 299, 799, 998}"
proof -
  from assms consider "unat r = 0" | "unat r = 1" | "unat r = 2" | "unat r = 3" | "unat r = 4"
    by linarith
  then show ?thesis by cases (simp_all add: maxPatch_def)
qed

lemma maxPatch_lt: "unat (r::8 word) < 5 \<Longrightarrow> maxPatch ! unat r < 1000"
  using maxPatch_nth [of r] by auto

lemma inc_mod_in_range:
  "m < (1000::16 word) \<Longrightarrow> p \<le> m \<Longrightarrow> unat ((p + 1) mod (m + 1)) = (unat p + 1) mod (unat m + 1)"
  by (simp add: unat_mod unat_word_ariths word_less_nat_alt word_le_nat_alt)

lemma inc_mod_bound: "m < (1000::16 word) \<Longrightarrow> (p + 1) mod (m + 1) \<le> m"
  by (simp add: unat_mod unat_word_ariths word_less_nat_alt word_le_nat_alt)

lemma dec_sat_in_range:
  assumes "m < (1000::16 word)" and "p \<le> m"
  shows "unat (if m < p - 1 then m else p - 1) = (if 0 < unat p then unat p - 1 else unat m)"
proof (cases "p = 0")
  case True
  have "unat (- 1 :: 16 word) = 65535"
    by (simp add: unsigned_minus_1_eq_mask mask_eq_exp_minus_1)
  with True assms show ?thesis by (simp add: word_less_nat_alt)
next
  case False
  then have u: "unat (p - 1) = unat p - 1" and z: "0 < unat p"
    by (simp_all add: unat_minus_one unat_gt_0)
  from assms have "unat p \<le> unat m" by (simp add: word_le_nat_alt)
  with u have "\<not> m < p - 1" by (simp add: word_less_nat_alt)
  with u z show ?thesis by simp
qed

lemma dec_sat_bound: "(if m < p - 1 then m else p - 1) \<le> (m::16 word)"
  by (simp add: not_less)

lemma sendMidiPC_keeps [simp]:
  "midiPatchNo (sendMidiPC v x st) = midiPatchNo st"
  "range_ix (sendMidiPC v x st) = range_ix st"
  "midiChannel (sendMidiPC v x st) = midiChannel st"
  by (simp_all add: sendMidiPC_def Let_def UART1_SendData8_def writeEepromByte_def)

section \<open>Patch selection\<close>

text \<open>
  C1. For every range index \<open>r\<close> (0 to 4) and every patch \<open>p\<close> with
  \<open>0 \<le> p \<le> maxPatch[r]\<close>, one UP activation, in \<open>main\<close> on the committed patch and in
  \<open>mode2\<close> on the working copy, gives \<open>(p + 1) mod (maxPatch[r] + 1)\<close>; one DOWN
  activation gives \<open>p - 1\<close> when \<open>p > 0\<close> and \<open>maxPatch[r]\<close> when \<open>p = 0\<close>.
\<close>

theorem patch_up_wraps_down_saturates:
  assumes r: "unat (range_ix st) < 5"
      and p: "midiPatchNo st \<le> maxPatch ! unat (range_ix st)"
      and n: "newPatchNo \<le> maxPatch ! unat (range_ix st)"
  shows "unat (midiPatchNo (main_UP v st)) =
           (unat (midiPatchNo st) + 1) mod (unat (maxPatch ! unat (range_ix st)) + 1) \<and>
         unat (midiPatchNo (main_DOWN v st)) =
           (if 0 < unat (midiPatchNo st) then unat (midiPatchNo st) - 1
            else unat (maxPatch ! unat (range_ix st))) \<and>
         unat (mode2_UP st newPatchNo) =
           (unat newPatchNo + 1) mod (unat (maxPatch ! unat (range_ix st)) + 1) \<and>
         unat (mode2_DOWN st newPatchNo) =
           (if 0 < unat newPatchNo then unat newPatchNo - 1
            else unat (maxPatch ! unat (range_ix st)))"
proof -
  let ?m = "maxPatch ! unat (range_ix st)"
  have m: "?m < 1000" using r by (rule maxPatch_lt)
  have e1: "midiPatchNo (main_UP v st) = (midiPatchNo st + 1) mod (?m + 1)"
    by (simp add: main_UP_def Let_def)
  have e2: "midiPatchNo (main_DOWN v st) =
              (if ?m < midiPatchNo st - 1 then ?m else midiPatchNo st - 1)"
    by (simp add: main_DOWN_def Let_def)
  have e3: "mode2_UP st newPatchNo = (newPatchNo + 1) mod (?m + 1)"
    by (simp add: mode2_UP_def)
  have e4: "mode2_DOWN st newPatchNo = (if ?m < newPatchNo - 1 then ?m else newPatchNo - 1)"
    by (simp add: mode2_DOWN_def)
  show ?thesis
    unfolding e1 e2 e3 e4
    by (intro conjI inc_mod_in_range [OF m p] dec_sat_in_range [OF m p]
          inc_mod_in_range [OF m n] dec_sat_in_range [OF m n])
qed

theorem patch_up_wraps_down_saturates_witness:
  "unat (midiPatchNo (main_UP default_build ((power_on erased)\<lparr>midiPatchNo := 127\<rparr>))) = 0 \<and>
   unat (midiPatchNo (main_DOWN default_build (power_on erased))) = 127 \<and>
   unat (mode2_UP ((power_on erased)\<lparr>midiPatchNo := 127\<rparr>) 127) = 0 \<and>
   unat (mode2_DOWN (power_on erased) 0) = 127"
  using patch_up_wraps_down_saturates
          [where st = "(power_on erased)\<lparr>midiPatchNo := 127\<rparr>" and newPatchNo = 127
             and v = default_build]
        patch_up_wraps_down_saturates
          [where st = "power_on erased" and newPatchNo = 0 and v = default_build]
  by (simp add: power_on_def maxPatch_def)

text \<open>
  C10. From any 16-bit patch value, also one above \<open>maxPatch[r]\<close>, one UP step and one
  DOWN step (in \<open>main\<close> and in \<open>mode2\<close>) each give a value in \<open>0..maxPatch[r]\<close>, for
  every range index \<open>r\<close> (0 to 4).
\<close>

theorem patch_step_restores_bound:
  assumes r: "unat (range_ix st) < 5"
  shows "midiPatchNo (main_UP v st) \<le> maxPatch ! unat (range_ix st) \<and>
         midiPatchNo (main_DOWN v st) \<le> maxPatch ! unat (range_ix st) \<and>
         mode2_UP st newPatchNo \<le> maxPatch ! unat (range_ix st) \<and>
         mode2_DOWN st newPatchNo \<le> maxPatch ! unat (range_ix st)"
proof -
  let ?m = "maxPatch ! unat (range_ix st)"
  have m: "?m < 1000" using r by (rule maxPatch_lt)
  have e1: "midiPatchNo (main_UP v st) = (midiPatchNo st + 1) mod (?m + 1)"
    by (simp add: main_UP_def Let_def)
  have e2: "midiPatchNo (main_DOWN v st) =
              (if ?m < midiPatchNo st - 1 then ?m else midiPatchNo st - 1)"
    by (simp add: main_DOWN_def Let_def)
  have e3: "mode2_UP st newPatchNo = (newPatchNo + 1) mod (?m + 1)"
    by (simp add: mode2_UP_def)
  have e4: "mode2_DOWN st newPatchNo = (if ?m < newPatchNo - 1 then ?m else newPatchNo - 1)"
    by (simp add: mode2_DOWN_def)
  show ?thesis
    unfolding e1 e2 e3 e4
    by (intro conjI inc_mod_bound [OF m] dec_sat_bound)
qed

theorem patch_step_restores_bound_witness:
  "midiPatchNo (main_UP default_build ((power_on erased)\<lparr>midiPatchNo := 0xFFFF\<rparr>)) = 0 \<and>
   midiPatchNo (main_DOWN default_build ((power_on erased)\<lparr>midiPatchNo := 500\<rparr>)) = 127 \<and>
   mode2_UP (power_on erased) 500 = 117 \<and>
   mode2_DOWN (power_on erased) 0 = 127"
  using patch_step_restores_bound
          [where st = "(power_on erased)\<lparr>midiPatchNo := 0xFFFF\<rparr>" and v = default_build
             and newPatchNo = 500]
  by (simp add: power_on_def maxPatch_def main_UP_def main_DOWN_def mode2_UP_def
        mode2_DOWN_def Let_def)

section \<open>MIDI channel and configuration store\<close>

lemma nibble_mask: "(15::8 word) = mask 4"
  by (simp add: mask_eq_exp_minus_1)

lemma and_15_mod: "unat ((b::8 word) AND 0x0F) = unat b mod 16"
proof -
  have "unat (take_bit 4 b) = unat b mod 2 ^ 4"
    by (simp add: unsigned_take_bit_eq take_bit_eq_mod unat_mod)
  then show ?thesis by (simp add: nibble_mask take_bit_eq_mask)
qed

text \<open>
  C6. In MIDI config mode, for every channel in 0..15, UP gives \<open>(channel + 1) mod 16\<close>
  and DOWN gives \<open>(channel - 1) mod 16\<close>, a ring: from 15 UP gives 0 and from 0 DOWN
  gives 15, although the code decrements an unsigned 8-bit value (0 becomes 255) before
  it takes the modulo.
\<close>

theorem channel_ring:
  assumes "midiChannel st < 16"
  shows "unat (midiChannel (configMIDI_UP st)) = (unat (midiChannel st) + 1) mod 16 \<and>
         int (unat (midiChannel (configMIDI_DOWN st))) =
           (int (unat (midiChannel st)) - 1) mod 16 \<and>
         midiChannel (configMIDI_UP st) < 16 \<and> midiChannel (configMIDI_DOWN st) < 16"
proof -
  let ?c = "midiChannel st"
  define n where "n = unat ?c"
  from assms have c: "n < 16" by (simp add: n_def word_less_nat_alt)
  have up: "unat ((?c + 1) mod 0x10) = (n + 1) mod 16"
    using c by (simp add: n_def unat_mod unat_word_ariths)
  have down: "int (unat ((?c - 1) mod 0x10)) = (int n - 1) mod 16"
  proof (cases "?c = 0")
    case True
    have "unat (- 1 :: 8 word) = 255"
      by (simp add: unsigned_minus_1_eq_mask mask_eq_exp_minus_1)
    with True show ?thesis by (simp add: n_def unat_mod)
  next
    case False
    then have "unat (?c - 1) = n - 1" and "0 < n"
      by (simp_all add: n_def unat_minus_one unat_gt_0)
    then have "unat ((?c - 1) mod 0x10) = n - 1" using c by (simp add: unat_mod)
    moreover have "(int n - 1) mod 16 = int (n - 1)" using c \<open>0 < n\<close> by simp
    ultimately show ?thesis by simp
  qed
  have lt: "x mod 0x10 < 16" for x :: "8 word"
    by (simp add: word_less_nat_alt unat_mod)
  show ?thesis using up down lt
    by (simp add: configMIDI_UP_def configMIDI_DOWN_def n_def)
qed

theorem channel_ring_witness:
  "midiChannel (configMIDI_UP ((power_on erased)\<lparr>midiChannel := 15\<rparr>)) = 0 \<and>
   midiChannel (configMIDI_DOWN (power_on erased)) = 15"
  using channel_ring [of "(power_on erased)\<lparr>midiChannel := 15\<rparr>"]
        channel_ring [of "power_on erased"]
  by (simp add: power_on_def configMIDI_UP_def configMIDI_DOWN_def)

text \<open>
  C8. Loading the configuration is total and gives in-range values for every stored
  byte pattern: the channel is the stored byte masked to its low 4 bits (0..15), the
  range index the stored byte modulo 5 (0..4, a valid index of \<open>maxPatch\<close>), the display
  flag bit 0 of the stored byte; an erased (all-zero) store gives channel 0, range 0,
  flag 0.
\<close>

theorem loadConfig_in_range:
  "midiChannel (loadConfig st) = eeprom st CHANNELOFFSET AND 0x0F \<and>
   unat (midiChannel (loadConfig st)) = unat (eeprom st CHANNELOFFSET) mod 16 \<and>
   unat (midiChannel (loadConfig st)) < 16 \<and>
   unat (range_ix (loadConfig st)) = unat (eeprom st RANGEOFFSET) mod 5 \<and>
   unat (range_ix (loadConfig st)) < length maxPatch \<and>
   showZeroBased (loadConfig st) = (if bit (eeprom st DISPLAYOFFSET) 0 then 1 else 0) \<and>
   midiChannel (loadConfig (st\<lparr>eeprom := erased\<rparr>)) = 0 \<and>
   range_ix (loadConfig (st\<lparr>eeprom := erased\<rparr>)) = 0 \<and>
   showZeroBased (loadConfig (st\<lparr>eeprom := erased\<rparr>)) = 0"
proof -
  have ch: "midiChannel (loadConfig st) = eeprom st CHANNELOFFSET AND 0x0F"
    by (simp add: loadConfig_def readEepromByte_def)
  have chn: "unat (midiChannel (loadConfig st)) = unat (eeprom st CHANNELOFFSET) mod 16"
    unfolding ch by (rule and_15_mod)
  have chb: "unat (midiChannel (loadConfig st)) < 16"
    unfolding chn by simp
  have rg: "unat (range_ix (loadConfig st)) = unat (eeprom st RANGEOFFSET) mod 5"
    by (simp add: loadConfig_def readEepromByte_def MAXRANGE_def unat_mod)
  have rgb: "unat (range_ix (loadConfig st)) < length maxPatch"
    unfolding rg by (simp add: maxPatch_def)
  have fl: "showZeroBased (loadConfig st) = (if bit (eeprom st DISPLAYOFFSET) 0 then 1 else 0)"
    by (simp add: loadConfig_def readEepromByte_def and_one_eq bit_0 even_iff_mod_2_eq_zero)
  have z: "midiChannel (loadConfig (st\<lparr>eeprom := erased\<rparr>)) = 0"
    "range_ix (loadConfig (st\<lparr>eeprom := erased\<rparr>)) = 0"
    "showZeroBased (loadConfig (st\<lparr>eeprom := erased\<rparr>)) = 0"
    by (simp_all add: loadConfig_def readEepromByte_def erased_def)
  show ?thesis using ch chn chb rg rgb fl z by blast
qed

text \<open>
  C2, as the specification states it: on exit from a config mode a field whose
  in-memory value equals its stored value is not written back. The code does not do
  that. Started with an erased EEPROM and UP held (MIDI config mode), one more UP
  press sets the channel to 1 and the 3 s timeout ends the mode: range and display flag
  still equal their stored bytes, and \<open>manageConfig\<close> writes all three bytes.
\<close>

theorem saveConfig_rewrites_unchanged_fields:
  "(case manageConfig default_build (power_on erased)
           [at_ms 0 0xF7, at_ms 51 0xF7, at_ms 60 0xFF, at_ms 100 0xF7, at_ms 151 0xF7,
            at_ms 200 0xFF, at_ms 3200 0xFF, at_ms 3201 0xFF] of
      (returned, st, rest) \<Rightarrow>
        returned \<and> midiChannel st = 1 \<and>
        range_ix st = erased RANGEOFFSET \<and> showZeroBased st = erased DISPLAYOFFSET \<and>
        eepromLog st = [(CHANNELOFFSET, 1), (RANGEOFFSET, 0), (DISPLAYOFFSET, 0)])"
  by code_simp

text \<open>
  C2, amended. On exit from a config mode: if the in-memory channel equals the stored
  channel byte masked to 4 bits and the in-memory range and display flag equal their
  stored bytes, nothing is written to the EEPROM; in every other case all three bytes
  (channel, range, display flag) are written, the unchanged ones too.
\<close>

theorem saveConfig_all_or_nothing:
  "eepromLog (saveConfig st) =
     eepromLog st @
     (if midiChannel st = (eeprom st CHANNELOFFSET AND 0x0F) \<and>
         range_ix st = eeprom st RANGEOFFSET \<and>
         showZeroBased st = eeprom st DISPLAYOFFSET
      then []
      else [(CHANNELOFFSET, midiChannel st), (RANGEOFFSET, range_ix st),
            (DISPLAYOFFSET, showZeroBased st)]) \<and>
   eeprom (saveConfig st) =
     (if midiChannel st = (eeprom st CHANNELOFFSET AND 0x0F) \<and>
         range_ix st = eeprom st RANGEOFFSET \<and>
         showZeroBased st = eeprom st DISPLAYOFFSET
      then eeprom st
      else (eeprom st)(CHANNELOFFSET := midiChannel st, RANGEOFFSET := range_ix st,
             DISPLAYOFFSET := showZeroBased st))"
  by (simp add: saveConfig_def readEepromByte_def writeEepromByte_def)

theorem saveConfig_all_or_nothing_witness:
  "eepromLog (saveConfig (loadConfig (power_on erased))) = [] \<and>
   eepromLog (saveConfig ((power_on erased)\<lparr>showZeroBased := 1\<rparr>)) =
     [(CHANNELOFFSET, 0), (RANGEOFFSET, 0), (DISPLAYOFFSET, 1)]"
  using saveConfig_all_or_nothing [of "loadConfig (power_on erased)"]
        saveConfig_all_or_nothing [of "(power_on erased)\<lparr>showZeroBased := 1\<rparr>"]
  by (simp add: power_on_def erased_def loadConfig_def readEepromByte_def)

section \<open>MIDI encoding\<close>

lemma status_or_channel:
  assumes "c < (16 :: 8 word)"
  shows "unat (0xB0 OR c) = 176 + unat c" and "unat (0xC0 OR c) = 192 + unat c"
proof -
  have "c < 2 ^ 4" using assms by simp
  then have "c AND mask 4 = c" by (rule less_mask_eq)
  then have c: "c = 15 AND c" by (simp only: nibble_mask and.commute)
  have "0xB0 AND (15 AND c) = 0" "0xC0 AND (15 AND c) = 0"
    by (simp_all flip: and.assoc)
  then have "0xB0 + c = 0xB0 OR c" "0xC0 + c = 0xC0 OR c" using c
    by (metis disjunctive_add_eq_or)+
  then have e: "0xB0 OR c = 0xB0 + c" "0xC0 OR c = 0xC0 + c" by simp_all
  from assms have "unat c < 16" by (simp add: word_less_nat_alt)
  then show "unat (0xB0 OR c) = 176 + unat c" and "unat (0xC0 OR c) = 192 + unat c"
    unfolding e by (simp_all add: unat_word_ariths)
qed

lemma data_bytes:
  "p \<le> (998::16 word) \<Longrightarrow> unat (ucast (p div 128) :: 8 word) = unat p div 128"
  "unat (ucast ((p::16 word) mod 128) :: 8 word) = unat p mod 128"
  by (simp_all add: unsigned_ucast_eq unsigned_take_bit_eq take_bit_eq_mod unat_div unat_mod
        word_le_nat_alt)

lemma uart_sendMidiPC:
  "uart (sendMidiPC v patch st) =
     uart st @
     (if sendMIDIBank v \<noteq> 0 \<or> range_ix st \<noteq> 0
      then [MIDI_CC OR midiChannel st, 0x00, ucast (patch div 128)] else []) @
     [MIDI_PC OR midiChannel st, ucast (patch mod 128)]"
  by (simp add: sendMidiPC_def Let_def UART1_SendData8_def writeEepromByte_def)

text \<open>
  C4. For every patch in 0..998 and channel in 0..15, \<open>sendMidiPC\<close> sends, when the
  bank is to be sent (\<open>sendMIDIBank || range\<close>), first the three bytes
  \<open>0xB0 | channel\<close>, \<open>0x00\<close>, \<open>patch / 128\<close>, and in every case the two bytes
  \<open>0xC0 | channel\<close>, \<open>patch % 128\<close>, in that order and nothing else: no bank LSB
  (controller 0x20) message. The second conjunct gives the bytes as numbers.
\<close>

theorem sendMidiPC_bytes:
  assumes p: "patch \<le> 998" and c: "midiChannel st < 16"
  shows "uart (sendMidiPC v patch st) =
           uart st @
           (if sendMIDIBank v \<noteq> 0 \<or> range_ix st \<noteq> 0
            then [MIDI_CC OR midiChannel st, 0x00, ucast (patch div 128)] else []) @
           [MIDI_PC OR midiChannel st, ucast (patch mod 128)] \<and>
         map unat (drop (length (uart st)) (uart (sendMidiPC v patch st))) =
           (if sendMIDIBank v \<noteq> 0 \<or> range_ix st \<noteq> 0
            then [0xB0 + unat (midiChannel st), 0, unat patch div 128] else []) @
           [0xC0 + unat (midiChannel st), unat patch mod 128]"
  using status_or_channel [OF c] data_bytes(1) [OF p] data_bytes(2) [of patch]
  by (simp add: uart_sendMidiPC MIDI_CC_def MIDI_PC_def)

theorem sendMidiPC_bytes_witness:
  "uart (sendMidiPC default_build 150 ((power_on erased)\<lparr>midiChannel := 2\<rparr>)) =
     [0xB2, 0x00, 0x01, 0xC2, 0x16] \<and>
   uart (sendMidiPC nobank_build 5 (power_on erased)) = [0xC0, 0x05]"
  using sendMidiPC_bytes [where patch = 150 and v = default_build
                            and st = "(power_on erased)\<lparr>midiChannel := 2\<rparr>"]
        sendMidiPC_bytes [where patch = 5 and st = "power_on erased" and v = nobank_build]
  by (simp add: power_on_def default_build_def nobank_build_def sendMIDIBank_def
        MIDI_CC_def MIDI_PC_def)

section \<open>The scanner, pass by pass\<close>

lemma idx_distinct [simp]:
  "UP \<noteq> DOWN" "UP \<noteq> MODE" "DOWN \<noteq> MODE" "DOWN \<noteq> UP" "MODE \<noteq> UP" "MODE \<noteq> DOWN"
  by (simp_all add: UP_def DOWN_def MODE_def)

lemma body_open:
  "\<not> is_closed v s i \<Longrightarrow>
   scanFS_body v a s i (per, fs) = (None, AUTOREPEAT_AFTER_MS, fs(i := (fs i)\<lparr>state := FS_UP\<rparr>))"
  by (simp add: scanFS_body_def)

lemma body_closed:
  "is_closed v s i \<Longrightarrow> HAS_MODE_FS v \<or> i \<noteq> MODE \<Longrightarrow>
   scanFS_body v a s i (per, fs) =
     (case scanFS_switch a (now s) per (fs i) of
        (ret, per', sw) \<Rightarrow> (if ret then Some i else None, per', fs(i := sw)))"
  by (auto simp: scanFS_body_def)

lemma body_closed_both:
  "is_closed v s MODE \<Longrightarrow> \<not> HAS_MODE_FS v \<Longrightarrow>
   scanFS_body v a s MODE (per, fs) =
     (case scanFS_switch a (now s) per (fs MODE) of
        (ret, per', sw) \<Rightarrow>
          (if ret then Some MODE else None, per',
           fs(UP := (fs UP)\<lparr>state := FS_UP\<rparr>, DOWN := (fs DOWN)\<lparr>state := FS_UP\<rparr>, MODE := sw)))"
  by (simp add: scanFS_body_def)

text \<open>A pass in which only switch k reads closed.\<close>

lemma pass_only_closed:
  assumes o: "only_closed v k s" and k: "k = UP \<or> k = DOWN \<or> k = MODE"
      and r: "scanFS_switch a (now s) (if k = UP then per else AUTOREPEAT_AFTER_MS) (fs k) = (ret, per1, sw)"
  shows "\<exists>per' fs'. scanFS_for v a s [UP, DOWN, MODE] (per, fs) = (if ret then Some k else None, per', fs') \<and>
           fs' k = sw \<and> (k = MODE \<or> ret \<longrightarrow> per' = per1) \<and> (k \<noteq> MODE \<and> \<not> ret \<longrightarrow> per' = AUTOREPEAT_AFTER_MS)"
proof -
  from k consider "k = UP" | "k = DOWN" | "k = MODE" by blast
  then show ?thesis
  proof cases
    case 1
    with o have c: "is_closed v s UP" "\<not> is_closed v s DOWN" "\<not> is_closed v s MODE"
      by (simp_all add: only_closed_def)
    show ?thesis using r 1
      by (simp add: body_open c body_closed)
  next
    case 2
    with o have c: "\<not> is_closed v s UP" "is_closed v s DOWN" "\<not> is_closed v s MODE"
      by (simp_all add: only_closed_def)
    show ?thesis using r 2
      by (simp add: body_open c body_closed)
  next
    case 3
    with o have c: "\<not> is_closed v s UP" "\<not> is_closed v s DOWN" "is_closed v s MODE"
      by (simp_all add: only_closed_def)
    show ?thesis using r 3
      by (cases "HAS_MODE_FS v") (simp_all add: body_open c body_closed body_closed_both)
  qed
qed


lemma switch_released:
  "state sw = FS_UP \<Longrightarrow>
   scanFS_switch a t per sw = (False, per, sw\<lparr>state := FS_DOWN, timeDown := t, firstDown := t\<rparr>)"
  by (simp add: scanFS_switch_def)

lemma switch_pending:
  "state sw = FS_DOWN \<Longrightarrow>
   scanFS_switch a t per sw =
     (if t - timeDown sw > DEBOUNCE_THRESHOLD_MS
      then (True, per, sw\<lparr>state := FS_SENT, timeDown := t\<rparr>) else (False, per, sw))"
  by (simp add: scanFS_switch_def)


text \<open>
  Runs of passes that each act on switch k alone (the entry of k goes through the
  switch statement, no other switch returns), with no timeout.
\<close>

lemma while_pending_quiet:
  assumes step: "\<And>s per fs. s \<in> set ss \<Longrightarrow> I fs \<Longrightarrow>
            \<exists>perX ret per1 sw per' fs'.
              scanFS_switch a (now s) perX (fs k) = (ret, per1, sw) \<and>
              scanFS_for v a s [UP, DOWN, MODE] (per, fs) = (if ret then Some k else None, per', fs') \<and>
              fs' k = sw \<and> I fs'"
      and "I fs" and "state (fs k) = FS_DOWN"
      and "\<forall>s\<in>set ss. now s - timeDown (fs k) \<le> DEBOUNCE_THRESHOLD_MS"
  shows "\<exists>per' fs'. (\<forall>rest. scanFS_while v a 0 start (per, fs) (ss @ rest) =
                             scanFS_while v a 0 start (per', fs') rest) \<and>
           fs' k = fs k \<and> I fs'"
  using assms
proof (induction ss arbitrary: per fs)
  case Nil
  then show ?case by auto
next
  case (Cons s ss)
  from Cons.prems(1) [of s fs per] Cons.prems(2)
  obtain perX ret per1 sw per' fs' where
    sw: "scanFS_switch a (now s) perX (fs k) = (ret, per1, sw)" and
    f: "scanFS_for v a s [UP, DOWN, MODE] (per, fs) = (if ret then Some k else None, per', fs')" and
    k: "fs' k = sw" and i: "I fs'"
    by auto
  from Cons.prems(4) have "\<not> now s - timeDown (fs k) > DEBOUNCE_THRESHOLD_MS"
    by (simp add: not_less)
  with sw Cons.prems(3) have r: "\<not> ret" "sw = fs k"
    by (simp_all add: switch_pending)
  have "\<exists>per'' fs''. (\<forall>rest. scanFS_while v a 0 start (per', fs') (ss @ rest) =
                               scanFS_while v a 0 start (per'', fs'') rest) \<and>
          fs'' k = fs' k \<and> I fs''"
    using Cons.prems(1) i Cons.prems(3,4) k r
    by (intro Cons.IH) auto
  then show ?case using f r k by (auto simp del: scanFS_for.simps)
qed

lemma while_pending_fires:
  assumes step: "\<And>x per fs. x \<in> set (pre @ [s]) \<Longrightarrow> I fs \<Longrightarrow>
            \<exists>perX ret per1 sw per' fs'.
              scanFS_switch a (now x) perX (fs k) = (ret, per1, sw) \<and>
              scanFS_for v a x [UP, DOWN, MODE] (per, fs) = (if ret then Some k else None, per', fs') \<and>
              fs' k = sw \<and> I fs'"
      and "I fs" and "state (fs k) = FS_DOWN"
      and "\<forall>x\<in>set pre. now x - timeDown (fs k) \<le> DEBOUNCE_THRESHOLD_MS"
      and "now s - timeDown (fs k) > DEBOUNCE_THRESHOLD_MS"
  shows "\<exists>fs'. scanFS_while v a 0 start (per, fs) (pre @ s # post) = (Some k, fs', post) \<and>
           fs' k = (fs k)\<lparr>state := FS_SENT, timeDown := now s\<rparr> \<and> I fs'"
  using assms
proof (induction pre arbitrary: per fs)
  case Nil
  from Nil.prems(1) [of s fs per] Nil.prems(2)
  obtain perX ret per1 sw per' fs' where
    sw: "scanFS_switch a (now s) perX (fs k) = (ret, per1, sw)" and
    f: "scanFS_for v a s [UP, DOWN, MODE] (per, fs) = (if ret then Some k else None, per', fs')" and
    k: "fs' k = sw" and i: "I fs'"
    by auto
  from sw Nil.prems(3,5) have "ret" "sw = (fs k)\<lparr>state := FS_SENT, timeDown := now s\<rparr>"
    by (simp_all add: switch_pending)
  then show ?case using f k i by (auto simp del: scanFS_for.simps)
next
  case (Cons x pre)
  from Cons.prems(1) [of x fs per] Cons.prems(2)
  obtain perX ret per1 sw per' fs' where
    sw: "scanFS_switch a (now x) perX (fs k) = (ret, per1, sw)" and
    f: "scanFS_for v a x [UP, DOWN, MODE] (per, fs) = (if ret then Some k else None, per', fs')" and
    k: "fs' k = sw" and i: "I fs'"
    by auto
  from Cons.prems(4) have "\<not> now x - timeDown (fs k) > DEBOUNCE_THRESHOLD_MS"
    by (simp add: not_less)
  with sw Cons.prems(3) have r: "\<not> ret" "sw = fs k"
    by (simp_all add: switch_pending)
  have "\<exists>fs''. scanFS_while v a 0 start (per', fs') (pre @ s # post) = (Some k, fs'', post) \<and>
           fs'' k = (fs' k)\<lparr>state := FS_SENT, timeDown := now s\<rparr> \<and> I fs''"
    using Cons.prems(1) i Cons.prems(3,4,5) k r
    by (intro Cons.IH) auto
  then show ?case using f r k by (auto simp del: scanFS_for.simps)
qed




lemma step_only_closed:
  assumes "only_closed v k s" and "k = UP \<or> k = DOWN \<or> k = MODE"
  shows "\<exists>perX ret per1 sw per' fs'.
           scanFS_switch a (now s) perX (fs k) = (ret, per1, sw) \<and>
           scanFS_for v a s [UP, DOWN, MODE] (per, fs) = (if ret then Some k else None, per', fs') \<and>
           fs' k = sw \<and> True"
proof -
  obtain ret per1 sw where
    r: "scanFS_switch a (now s) (if k = UP then per else AUTOREPEAT_AFTER_MS) (fs k) = (ret, per1, sw)"
    by (metis surj_pair)
  from pass_only_closed [where fs = fs and per = per and a = a, OF assms r] show ?thesis using r by blast
qed

lemma scanFS_alt:
  "scanFS v a t st ss =
     (case scanFS_while v a t (now (hd ss)) (AUTOREPEAT_AFTER_MS, fsArr st) ss of
        (r, fs, rest) \<Rightarrow> (r, st\<lparr>fsArr := fs\<rparr>, rest))"
  by (cases ss) (simp_all add: scanFS_def)


declare scan_events.simps [simp del]

lemma scan_events_None:
  "scanFS v a t st ss = (None, st', rest) \<Longrightarrow> scan_events v a t st ss = ([], st')"
  by (subst scan_events.simps) simp

lemma scan_events_Some:
  "scanFS v a t st ss = (Some r, st', rest) \<Longrightarrow>
   scan_events v a t st ss =
     (r # fst (scan_events v a t st' rest), snd (scan_events v a t st' rest))"
  by (subst scan_events.simps) (simp split: prod.splits)

declare scan_times.simps [simp del]

lemma scan_times_None:
  "scanFS v a 0 st ss = (None, st', rest) \<Longrightarrow> scan_times v a st ss = []"
  by (subst scan_times.simps) simp

lemma scan_times_Some:
  "scanFS v a 0 st ss = (Some r, st', rest) \<Longrightarrow>
   scan_times v a st ss = (r, timeDown (fsArr st' r)) # scan_times v a st' rest"
  by (subst scan_times.simps) simp



section \<open>Debounce\<close>



section \<open>Autorepeat\<close>

lemma ucast_periods:
  "(ucast AUTOREPEAT_AFTER_MS :: 32 word) = 300" "(ucast AUTOREPEAT_FAST_MS :: 32 word) = 60"
  by (simp_all add: AUTOREPEAT_AFTER_MS_def AUTOREPEAT_FAST_MS_def)

lemma switch_actioned_on:
  assumes "state sw = FS_SENT" and "a \<noteq> AUTOREPEAT_OFF"
  shows "scanFS_switch a (now s) AUTOREPEAT_AFTER_MS sw =
           (spec_repeat_due sw s,
            if now s - firstDown sw > AUTOREPEAT_FAST_AFTER then AUTOREPEAT_FAST_MS
            else AUTOREPEAT_AFTER_MS,
            if spec_repeat_due sw s then sw\<lparr>timeDown := now s\<rparr> else sw)"
  using assms
  by (simp add: scanFS_switch_def spec_repeat_due_def spec_repeat_period_def Let_def
        ucast_periods AUTOREPEAT_FAST_AFTER_def)

lemma while_repeat_quiet:
  assumes k: "k = UP \<or> k = DOWN \<or> k = MODE"
      and on: "a \<noteq> AUTOREPEAT_OFF"
      and held: "\<forall>s\<in>set ss. only_closed v k s"
      and sent: "state (fs k) = FS_SENT"
      and per: "k = UP \<longrightarrow> per = AUTOREPEAT_AFTER_MS"
      and quiet: "\<forall>s\<in>set ss. \<not> spec_repeat_due (fs k) s"
  shows "\<exists>per' fs'. (\<forall>rest. scanFS_while v a 0 start (per, fs) (ss @ rest) =
                             scanFS_while v a 0 start (per', fs') rest) \<and>
           fs' k = fs k \<and> (k = UP \<longrightarrow> per' = AUTOREPEAT_AFTER_MS)"
  using held sent per quiet
proof (induction ss arbitrary: per fs)
  case Nil
  then show ?case by auto
next
  case (Cons s ss)
  from Cons.prems have o: "only_closed v k s" and nd: "\<not> spec_repeat_due (fs k) s" by simp_all
  have r: "scanFS_switch a (now s) (if k = UP then per else AUTOREPEAT_AFTER_MS) (fs k) =
             (False,
              if now s - firstDown (fs k) > AUTOREPEAT_FAST_AFTER then AUTOREPEAT_FAST_MS
              else AUTOREPEAT_AFTER_MS, fs k)"
  proof -
    have pk: "(if k = UP then per else AUTOREPEAT_AFTER_MS) = AUTOREPEAT_AFTER_MS"
      using Cons.prems(3) by simp
    show ?thesis
      unfolding pk using switch_actioned_on [OF Cons.prems(2) on, of s] nd by simp
  qed
  from pass_only_closed [where fs = fs and per = per and a = a, OF o k r]
  obtain per' fs' where
    f: "scanFS_for v a s [UP, DOWN, MODE] (per, fs) = (None, per', fs')" and
    e: "fs' k = fs k" and p: "k \<noteq> MODE \<longrightarrow> per' = AUTOREPEAT_AFTER_MS"
    by auto
  have "\<exists>per'' fs''. (\<forall>rest. scanFS_while v a 0 start (per', fs') (ss @ rest) =
                               scanFS_while v a 0 start (per'', fs'') rest) \<and>
          fs'' k = fs' k \<and> (k = UP \<longrightarrow> per'' = AUTOREPEAT_AFTER_MS)"
    using Cons.prems e p by (intro Cons.IH) auto
  then show ?case using f e by (auto simp del: scanFS_for.simps)
qed

lemma while_repeat_fires:
  assumes k: "k = UP \<or> k = DOWN \<or> k = MODE"
      and on: "a \<noteq> AUTOREPEAT_OFF"
      and held: "\<forall>x\<in>set (pre @ [s]). only_closed v k x"
      and sent: "state (fs k) = FS_SENT"
      and per: "k = UP \<longrightarrow> per = AUTOREPEAT_AFTER_MS"
      and quiet: "\<forall>x\<in>set pre. \<not> spec_repeat_due (fs k) x"
      and due: "spec_repeat_due (fs k) s"
  shows "\<exists>fs'. scanFS_while v a 0 start (per, fs) (pre @ s # post) = (Some k, fs', post) \<and>
           fs' k = (fs k)\<lparr>timeDown := now s\<rparr>"
proof -
  from held have hp: "\<forall>x\<in>set pre. only_closed v k x" and o: "only_closed v k s" by simp_all
  from while_repeat_quiet [where fs = fs and per = per and start = start, OF k on hp sent per quiet]
  obtain per' fs' where
    w: "\<forall>rest. scanFS_while v a 0 start (per, fs) (pre @ rest) =
               scanFS_while v a 0 start (per', fs') rest" and
    e: "fs' k = fs k" and p: "k = UP \<longrightarrow> per' = AUTOREPEAT_AFTER_MS"
    by auto
  have r: "scanFS_switch a (now s) (if k = UP then per' else AUTOREPEAT_AFTER_MS) (fs' k) =
             (True,
              if now s - firstDown (fs k) > AUTOREPEAT_FAST_AFTER then AUTOREPEAT_FAST_MS
              else AUTOREPEAT_AFTER_MS, (fs k)\<lparr>timeDown := now s\<rparr>)"
  proof -
    have pk: "(if k = UP then per' else AUTOREPEAT_AFTER_MS) = AUTOREPEAT_AFTER_MS"
      using p by simp
    from sent e have sent': "state (fs' k) = FS_SENT" by simp
    show ?thesis
      unfolding pk using switch_actioned_on [OF sent' on, of s] due e by simp
  qed
  from pass_only_closed [where fs = fs' and per = per' and a = a, OF o k r]
  obtain per'' fs'' where
    f: "scanFS_for v a s [UP, DOWN, MODE] (per', fs') = (Some k, per'', fs'')" and
    e': "fs'' k = (fs k)\<lparr>timeDown := now s\<rparr>"
    by auto
  from w have "scanFS_while v a 0 start (per, fs) (pre @ s # post) =
               scanFS_while v a 0 start (per', fs') (s # post)"
    by blast
  with f e' show ?thesis by (simp del: scanFS_for.simps)
qed

text \<open>
  The specification's list of events, split at the first tick that fires.
\<close>

lemma spec_fired_quiet:
  "\<forall>t\<in>set ts. \<not> t - l > spec_repeat_period (t - t0) \<Longrightarrow>
   spec_press_events t0 (Some l) ts = []"
  by (induction ts) simp_all

lemma spec_fired_fires:
  "\<forall>x\<in>set pre. \<not> x - l > spec_repeat_period (x - t0) \<Longrightarrow>
   t - l > spec_repeat_period (t - t0) \<Longrightarrow>
   spec_press_events t0 (Some l) (pre @ t # post) = t # spec_press_events t0 (Some t) post"
  by (induction pre) simp_all

lemma spec_pending_quiet:
  "\<forall>t\<in>set ts. \<not> t - t0 > 50 \<Longrightarrow> spec_press_events t0 None ts = []"
  by (induction ts) simp_all

lemma spec_pending_fires:
  "\<forall>x\<in>set pre. \<not> x - t0 > 50 \<Longrightarrow> t - t0 > 50 \<Longrightarrow>
   spec_press_events t0 None (pre @ t # post) = t # spec_press_events t0 (Some t) post"
  by (induction pre) simp_all

text \<open>
  A press of switch \<open>k\<close> alone, scanned again after every return with autorepeat on:
  the events of the code are the events of the specification, first from an actioned
  entry (\<open>firstDown\<close> is the start of the press there), then from a released one.
\<close>

lemma scanFS_repeat_fires:
  assumes k: "k = UP \<or> k = DOWN \<or> k = MODE"
      and on: "a \<noteq> AUTOREPEAT_OFF"
      and held: "\<forall>x\<in>set (pre @ s # post). only_closed v k x"
      and sent: "state (fsArr st k) = FS_SENT"
      and quiet: "\<forall>x\<in>set pre. \<not> spec_repeat_due (fsArr st k) x"
      and due: "spec_repeat_due (fsArr st k) s"
  shows "\<exists>fs'. scanFS v a 0 st (pre @ s # post) = (Some k, st\<lparr>fsArr := fs'\<rparr>, post) \<and>
           fs' k = (fsArr st k)\<lparr>timeDown := now s\<rparr>"
proof -
  from held have h: "\<forall>x\<in>set (pre @ [s]). only_closed v k x" by simp
  from while_repeat_fires [where fs = "fsArr st" and per = AUTOREPEAT_AFTER_MS
         and start = "now (hd (pre @ s # post))" and post = post, OF k on h sent _ quiet due]
  obtain fs' where
    "scanFS_while v a 0 (now (hd (pre @ s # post))) (AUTOREPEAT_AFTER_MS, fsArr st)
       (pre @ s # post) = (Some k, fs', post)" and
    "fs' k = (fsArr st k)\<lparr>timeDown := now s\<rparr>"
    by auto
  then show ?thesis by (intro exI [of _ fs']) (simp add: scanFS_alt)
qed

lemma scanFS_repeat_quiet:
  assumes k: "k = UP \<or> k = DOWN \<or> k = MODE"
      and on: "a \<noteq> AUTOREPEAT_OFF"
      and held: "\<forall>s\<in>set ss. only_closed v k s"
      and sent: "state (fsArr st k) = FS_SENT"
      and quiet: "\<forall>s\<in>set ss. \<not> spec_repeat_due (fsArr st k) s"
  shows "\<exists>st'. scanFS v a 0 st ss = (None, st', [])"
proof -
  from while_repeat_quiet [where fs = "fsArr st" and per = AUTOREPEAT_AFTER_MS
         and start = "now (hd ss)", OF k on held sent _ quiet]
  obtain per' fs' where
    "\<forall>rest. scanFS_while v a 0 (now (hd ss)) (AUTOREPEAT_AFTER_MS, fsArr st) (ss @ rest) =
            scanFS_while v a 0 (now (hd ss)) (per', fs') rest"
    by auto
  then have "scanFS_while v a 0 (now (hd ss)) (AUTOREPEAT_AFTER_MS, fsArr st) (ss @ []) =
             scanFS_while v a 0 (now (hd ss)) (per', fs') []"
    by blast
  then show ?thesis by (simp add: scanFS_alt)
qed

lemma repeat_trace:
  assumes k: "k = UP \<or> k = DOWN \<or> k = MODE"
      and on: "a \<noteq> AUTOREPEAT_OFF"
  shows "\<forall>s\<in>set ss. only_closed v k s \<Longrightarrow> state (fsArr st k) = FS_SENT \<Longrightarrow>
         scan_times v a st ss =
           map (Pair k) (spec_press_events (firstDown (fsArr st k))
                           (Some (timeDown (fsArr st k))) (map now ss))"
proof (induction ss arbitrary: st rule: length_induct)
  case (1 ss)
  let ?sw = "fsArr st k"
  show ?case
  proof (cases "\<exists>s\<in>set ss. spec_repeat_due ?sw s")
    case False
    then have q: "\<forall>s\<in>set ss. \<not> spec_repeat_due ?sw s" by simp
    from scanFS_repeat_quiet [OF k on "1.prems"(1) "1.prems"(2) q]
    obtain st' where "scanFS v a 0 st ss = (None, st', [])" by auto
    then have "scan_times v a st ss = []" by (rule scan_times_None)
    moreover have "spec_press_events (firstDown ?sw) (Some (timeDown ?sw)) (map now ss) = []"
      using q by (intro spec_fired_quiet) (auto simp: spec_repeat_due_def)
    ultimately show ?thesis by simp
  next
    case True
    from split_list_first_prop [OF True]
    obtain pre s post where
      sp: "ss = pre @ s # post" and d: "spec_repeat_due ?sw s" and
      q: "\<forall>x\<in>set pre. \<not> spec_repeat_due ?sw x"
      by blast
    from "1.prems"(1) sp have h: "\<forall>x\<in>set (pre @ s # post). only_closed v k x" by simp
    from scanFS_repeat_fires [OF k on h "1.prems"(2) q d] sp
    obtain fs' where
      c: "scanFS v a 0 st ss = (Some k, st\<lparr>fsArr := fs'\<rparr>, post)" and
      e: "fs' k = ?sw\<lparr>timeDown := now s\<rparr>"
      by auto
    from h have hp: "\<forall>x\<in>set post. only_closed v k x" by simp
    have len: "length post < length ss" using sp by simp
    have s': "state (fsArr (st\<lparr>fsArr := fs'\<rparr>) k) = FS_SENT"
      using e "1.prems"(2) by simp
    from "1.IH" [rule_format, OF len bspec [OF hp] s'] e
    have ih: "scan_times v a (st\<lparr>fsArr := fs'\<rparr>) post =
                map (Pair k) (spec_press_events (firstDown ?sw) (Some (now s)) (map now post))"
      by simp
    have spec: "spec_press_events (firstDown ?sw) (Some (timeDown ?sw)) (map now ss) =
                  now s # spec_press_events (firstDown ?sw) (Some (now s)) (map now post)"
      unfolding sp map_append list.map
      using q d by (intro spec_fired_fires) (auto simp: spec_repeat_due_def)
    from scan_times_Some [OF c] ih spec e show ?thesis by simp
  qed
qed

lemma press_trace:
  assumes k: "k = UP \<or> k = DOWN \<or> k = MODE"
      and on: "a \<noteq> AUTOREPEAT_OFF"
      and held: "\<forall>s\<in>set ss. only_closed v k s"
      and fresh: "state (fsArr st k) = FS_UP"
  shows "scan_times v a st ss =
           map (Pair k) (spec_press_events (now (hd ss)) None (map now ss))"
proof (cases ss)
  case Nil
  have "scanFS v a 0 st [] = (None, st, [])" by (simp add: scanFS_def)
  then have "scan_times v a st [] = []" by (rule scan_times_None)
  with Nil show ?thesis by simp
next
  case (Cons s1 ss')
  let ?t0 = "now s1"
  let ?sw1 = "(fsArr st k)\<lparr>state := FS_DOWN, timeDown := now s1, firstDown := now s1\<rparr>"
  from held Cons have o1: "only_closed v k s1" and o': "\<forall>s\<in>set ss'. only_closed v k s"
    by simp_all
  have r1: "scanFS_switch a (now s1)
              (if k = UP then AUTOREPEAT_AFTER_MS else AUTOREPEAT_AFTER_MS) (fsArr st k) =
            (False, AUTOREPEAT_AFTER_MS, ?sw1)"
    using fresh by (simp add: switch_released)
  from pass_only_closed [where fs = "fsArr st" and per = AUTOREPEAT_AFTER_MS, OF o1 k r1]
  obtain per1 fs1 where
    f1: "scanFS_for v a s1 [UP, DOWN, MODE] (AUTOREPEAT_AFTER_MS, fsArr st) = (None, per1, fs1)" and
    k1: "fs1 k = ?sw1"
    by auto
  have first: "scanFS_while v a 0 ?t0 (AUTOREPEAT_AFTER_MS, fsArr st) ss =
               scanFS_while v a 0 ?t0 (per1, fs1) ss'"
    using f1 Cons by (simp del: scanFS_for.simps)
  have hd1: "hd ss = s1" using Cons by simp
  have p1: "state (fs1 k) = FS_DOWN" and t1: "timeDown (fs1 k) = now s1"
    and d1: "firstDown (fs1 k) = now s1"
    using k1 by simp_all
  have spec1: "spec_press_events ?t0 None (map now ss) = spec_press_events ?t0 None (map now ss')"
    using Cons by simp
  show ?thesis
  proof (cases "\<exists>s\<in>set ss'. now s - now s1 > DEBOUNCE_THRESHOLD_MS")
    case False
    then have q: "\<forall>s\<in>set ss'. now s - timeDown (fs1 k) \<le> DEBOUNCE_THRESHOLD_MS"
      by (auto simp: t1 not_less)
    have "\<exists>per' fs'. (\<forall>rest. scanFS_while v a 0 ?t0 (per1, fs1) (ss' @ rest) =
                               scanFS_while v a 0 ?t0 (per', fs') rest) \<and>
            fs' k = fs1 k \<and> True"
      using o' k p1 q
      by (intro while_pending_quiet [where I = "\<lambda>_. True"] step_only_closed) auto
    then obtain per2 fs2 where
      "\<forall>rest. scanFS_while v a 0 ?t0 (per1, fs1) (ss' @ rest) =
              scanFS_while v a 0 ?t0 (per2, fs2) rest"
      by auto
    then have "scanFS_while v a 0 ?t0 (per1, fs1) (ss' @ []) =
               scanFS_while v a 0 ?t0 (per2, fs2) []"
      by blast
    with first have "scanFS v a 0 st ss = (None, st\<lparr>fsArr := fs2\<rparr>, [])"
      by (simp add: scanFS_alt hd1)
    then have "scan_times v a st ss = []" by (rule scan_times_None)
    moreover have "spec_press_events ?t0 None (map now ss') = []"
      using False by (intro spec_pending_quiet) (auto simp: DEBOUNCE_THRESHOLD_MS_def)
    ultimately show ?thesis using spec1 hd1 by simp
  next
    case True
    from split_list_first_prop [OF True]
    obtain pre s post where
      sp: "ss' = pre @ s # post" and
      d: "now s - now s1 > DEBOUNCE_THRESHOLD_MS" and
      nd: "\<forall>x\<in>set pre. \<not> now x - now s1 > DEBOUNCE_THRESHOLD_MS"
      by blast
    have "\<exists>fs'. scanFS_while v a 0 ?t0 (per1, fs1) (pre @ s # post) = (Some k, fs', post) \<and>
            fs' k = (fs1 k)\<lparr>state := FS_SENT, timeDown := now s\<rparr> \<and> True"
      using o' k p1 d nd sp
      by (intro while_pending_fires [where I = "\<lambda>_. True"] step_only_closed)
         (auto simp: t1 not_less)
    then obtain fs2 where
      e: "scanFS_while v a 0 ?t0 (per1, fs1) (pre @ s # post) = (Some k, fs2, post)" and
      k2: "fs2 k = (fs1 k)\<lparr>state := FS_SENT, timeDown := now s\<rparr>"
      by auto
    from first e sp
    have c: "scanFS v a 0 st ss = (Some k, st\<lparr>fsArr := fs2\<rparr>, post)"
      by (simp add: scanFS_alt hd1)
    from o' sp have op: "\<forall>s\<in>set post. only_closed v k s" by simp
    have s2: "state (fsArr (st\<lparr>fsArr := fs2\<rparr>) k) = FS_SENT" using k2 by simp
    from repeat_trace [OF k on op s2] k2 d1
    have rest: "scan_times v a (st\<lparr>fsArr := fs2\<rparr>) post =
                  map (Pair k) (spec_press_events ?t0 (Some (now s)) (map now post))"
      by simp
    have spec2: "spec_press_events ?t0 None (map now ss') =
                   now s # spec_press_events ?t0 (Some (now s)) (map now post)"
      unfolding sp map_append list.map
      using nd d by (intro spec_pending_fires) (auto simp: DEBOUNCE_THRESHOLD_MS_def)
    from scan_times_Some [OF c] rest spec1 spec2 k2 hd1 show ?thesis by simp
  qed
qed

text \<open>
  Gaps between successive events of the specification's list when the ticks are at
  most \<open>d\<close> apart.
\<close>

lemma elapsed_diff:
  fixes a b t0 :: "32 word"
  assumes "a - t0 \<le> b - t0"
  shows "unat (b - a) = unat (b - t0) - unat (a - t0)"
proof -
  have "b - a = (b - t0) - (a - t0)" by simp
  with assms show ?thesis by (simp only: unat_sub)
qed

lemma gap_step:
  fixes l prev t t0 d :: "32 word"
  assumes d: "d \<le> 240" and lp: "l - t0 \<le> prev - t0" and pt: "prev - t0 \<le> t - t0"
      and step: "t - prev \<le> d"
      and nd: "\<not> prev - l > spec_repeat_period (prev - t0)"
      and due: "t - l > spec_repeat_period (t - t0)"
  shows "(t - t0 \<le> 1000 \<longrightarrow> 300 < t - l \<and> t - l \<le> 300 + d) \<and>
         (1000 < l - t0 \<longrightarrow> 60 < t - l \<and> t - l \<le> 60 + d)"
proof -
  from lp pt have lt: "l - t0 \<le> t - t0" by simp
  have e1: "unat (t - l) = unat (t - t0) - unat (l - t0)" by (rule elapsed_diff [OF lt])
  have e2: "unat (prev - l) = unat (prev - t0) - unat (l - t0)" by (rule elapsed_diff [OF lp])
  have e3: "unat (t - prev) = unat (t - t0) - unat (prev - t0)" by (rule elapsed_diff [OF pt])
  from d have dn: "unat d \<le> 240" by (simp add: word_le_nat_alt)
  then have a1: "unat (300 + d) = 300 + unat d" and a2: "unat (60 + d) = 60 + unat d"
    by (simp_all add: unat_word_ariths)
  from lp pt have n1: "unat (l - t0) \<le> unat (prev - t0)" "unat (prev - t0) \<le> unat (t - t0)"
    by (simp_all add: word_le_nat_alt)
  from step have n2: "unat (t - t0) - unat (prev - t0) \<le> unat d"
    by (simp add: word_le_nat_alt e3)
  from nd have n3: "unat (prev - t0) - unat (l - t0) \<le> (if 1000 < unat (prev - t0) then 60 else 300)"
    by (simp add: spec_repeat_period_def word_less_nat_alt e2 not_less split: if_splits)
  from due have n4: "(if 1000 < unat (t - t0) then 60 else 300) < unat (t - t0) - unat (l - t0)"
    by (simp add: spec_repeat_period_def word_less_nat_alt e1 split: if_splits)
  show ?thesis
    unfolding word_less_nat_alt word_le_nat_alt e1 a1 a2
    using n1 n2 n3 n4 dn by (auto split: if_splits)
qed

lemma gaps_fired:
  fixes l prev t0 d :: "32 word"
  assumes "d \<le> 240"
  shows "polled_within d t0 prev ts \<Longrightarrow> l - t0 \<le> prev - t0 \<Longrightarrow>
         \<not> prev - l > spec_repeat_period (prev - t0) \<Longrightarrow>
         successively (\<lambda>a b. (b - t0 \<le> 1000 \<longrightarrow> 300 < b - a \<and> b - a \<le> 300 + d) \<and>
                              (1000 < a - t0 \<longrightarrow> 60 < b - a \<and> b - a \<le> 60 + d))
           (l # spec_press_events t0 (Some l) ts)"
proof (induction ts arbitrary: prev l)
  case Nil
  then show ?case by simp
next
  case (Cons t ts)
  from Cons.prems(1) have pt: "prev - t0 \<le> t - t0" and step: "t - prev \<le> d"
    and pw: "polled_within d t0 t ts"
    by simp_all
  show ?case
  proof (cases "t - l > spec_repeat_period (t - t0)")
    case True
    have q: "\<not> t - t > spec_repeat_period (t - t0)" by simp
    from Cons.IH [OF pw order_refl q] gap_step [OF assms Cons.prems(2) pt step Cons.prems(3) True]
      True
    show ?thesis by simp
  next
    case False
    from Cons.prems(2) pt have "l - t0 \<le> t - t0" by simp
    from Cons.IH [OF pw this False] False show ?thesis by simp
  qed
qed

lemma gaps_pending:
  fixes prev t0 d :: "32 word"
  assumes "d \<le> 240"
  shows "polled_within d t0 prev ts \<Longrightarrow>
         successively (\<lambda>a b. (b - t0 \<le> 1000 \<longrightarrow> 300 < b - a \<and> b - a \<le> 300 + d) \<and>
                              (1000 < a - t0 \<longrightarrow> 60 < b - a \<and> b - a \<le> 60 + d))
           (spec_press_events t0 None ts)"
proof (induction ts arbitrary: prev)
  case Nil
  then show ?case by simp
next
  case (Cons t ts)
  from Cons.prems have pw: "polled_within d t0 t ts" by simp
  show ?case
  proof (cases "t - t0 > 50")
    case True
    have q: "\<not> t - t > spec_repeat_period (t - t0)" by simp
    from gaps_fired [OF assms pw order_refl q] True show ?thesis by simp
  next
    case False
    from Cons.IH [OF pw] False show ?thesis by simp
  qed
qed

lemma gaps_compare:
  fixes t0 d :: "32 word"
  assumes d: "d \<le> 240"
      and s: "successively (\<lambda>a b. (b - t0 \<le> 1000 \<longrightarrow> 300 < b - a \<and> b - a \<le> 300 + d) \<and>
                              (1000 < a - t0 \<longrightarrow> 60 < b - a \<and> b - a \<le> 60 + d)) es"
      and i: "Suc i < length es" "es ! Suc i - t0 \<le> 1000"
      and j: "Suc j < length es" "1000 < es ! j - t0"
  shows "es ! Suc j - es ! j < es ! Suc i - es ! i"
proof -
  from successively_nth [OF s i(1)] i(2) have a: "300 < es ! Suc i - es ! i" by simp
  from successively_nth [OF s j(1)] j(2) have b: "es ! Suc j - es ! j \<le> 60 + d" by simp
  from d have "unat d \<le> 240" by (simp add: word_le_nat_alt)
  then have "unat (60 + d) = 60 + unat d" by (simp add: unat_word_ariths)
  with a b \<open>unat d \<le> 240\<close> show ?thesis
    by (simp add: word_less_nat_alt word_le_nat_alt)
qed

text \<open>
  C9, as the specification states it: with autorepeat enabled, a switch held
  continuously repeats with a period of 300 ms while at most 1000 ms have passed since
  its press began, and of 60 ms after. The code does not do that when another switch
  line reads closed during the press. The repeat period is one local of \<open>scanFS\<close>
  shared by all switches, and in the two-switch build a pass that reads both lines
  closed resets the entries of UP and DOWN.
  Three-switch build, from power-on: UP is closed from tick 0 on, DOWN from tick 1101 on.
  DOWN fires at 1152 and again at 1213, 61 ms later and 112 ms after its press began:
  the pass at 1213 has set the shared period to 60 ms for UP (held for more than
  1000 ms) before it reaches DOWN. By the specification the press of DOWN fires at 1152
  only.
  Default (two-switch) build, from power-on: UP is closed in every sample, DOWN only in
  the one at tick 1020. After the event at 1015 the press of UP starts again at 1021:
  events at 1072 and 1373, none at 1133, although UP has been held for more than
  1000 ms. By the specification UP fires at 1133 and at 1372.
\<close>

theorem autorepeat_period_with_second_switch_closed:
  "scan_times three_switch_build AUTOREPEAT_ON (power_on erased)
     [at_ms 0 0xF7, at_ms 51 0xF7, at_ms 1100 0xF7, at_ms 1101 0xE7, at_ms 1152 0xE7,
      at_ms 1161 0xE7, at_ms 1213 0xE7] =
     [(UP, 51), (UP, 1100), (DOWN, 1152), (UP, 1161), (DOWN, 1213)] \<and>
   is_closed three_switch_build (at_ms 1101 0xE7) DOWN \<and>
   \<not> is_closed three_switch_build (at_ms 1100 0xF7) DOWN \<and>
   spec_press_events 1101 None [1101, 1152, 1161, 1213] = [1152] \<and>
   scan_times default_build AUTOREPEAT_ON (power_on erased)
     [at_ms 0 0xF7, at_ms 51 0xF7, at_ms 352 0xF7, at_ms 653 0xF7, at_ms 954 0xF7,
      at_ms 1015 0xF7, at_ms 1020 0xE7, at_ms 1021 0xF7, at_ms 1072 0xF7, at_ms 1133 0xF7,
      at_ms 1372 0xF7, at_ms 1373 0xF7] =
     [(UP, 51), (UP, 352), (UP, 653), (UP, 954), (UP, 1015), (UP, 1072), (UP, 1373)] \<and>
   is_closed default_build (at_ms 1020 0xE7) UP \<and>
   is_closed default_build (at_ms 1021 0xF7) UP \<and>
   spec_press_events 0 None
     [0, 51, 352, 653, 954, 1015, 1020, 1021, 1072, 1133, 1372, 1373] =
     [51, 352, 653, 954, 1015, 1133, 1372]"
  by code_simp

text \<open>
  C9, amended. Autorepeat enabled, switch \<open>k\<close> released before the press, only
  \<open>k\<close> read closed in every sample (the press begins at the first, tick
  \<open>t0\<close>), and a caller that scans again after every return. The events it receives
  are \<open>k\<close> at the ticks of the specification: first at the first sample more than
  50 ms after the press began, then at every first sample at which the time since the
  last event exceeds the effective period, 300 ms while at most 1000 ms have passed
  since the press began and 60 ms after (\<open>es\<close> names the ticks of the events).
  Consequently, when successive samples are at most \<open>d \<le> 240\<close> ms apart, a gap
  that ends at most 1000 ms after the press began is more than 300 and at most
  \<open>300 + d\<close> ms, a gap that starts more than 1000 ms after it is more than 60 and at
  most \<open>60 + d\<close> ms, and every gap after the 1000 ms mark is strictly smaller than
  every gap before it. Differences of ticks are taken modulo \<open>2^32\<close>, as the code
  takes them.
\<close>

theorem autorepeat_period_from_press_start:
  assumes k: "k = UP \<or> k = DOWN \<or> k = MODE"
      and on: "autoRepeat \<noteq> AUTOREPEAT_OFF"
      and held: "\<forall>s\<in>set ss. only_closed v k s"
      and fresh: "state (fsArr st k) = FS_UP"
      and t0: "t0 = now (hd ss)"
      and es: "es = map snd (scan_times v autoRepeat st ss)"
  shows "scan_times v autoRepeat st ss =
           map (Pair k) (spec_press_events t0 None (map now ss)) \<and>
         (d \<le> 240 \<and> polled_within d t0 t0 (map now ss) \<longrightarrow>
            successively
              (\<lambda>a b. (b - t0 \<le> 1000 \<longrightarrow> 300 < b - a \<and> b - a \<le> 300 + d) \<and>
                     (1000 < a - t0 \<longrightarrow> 60 < b - a \<and> b - a \<le> 60 + d)) es \<and>
            (\<forall>i j. Suc i < length es \<and> es ! Suc i - t0 \<le> 1000 \<and>
                   Suc j < length es \<and> 1000 < es ! j - t0 \<longrightarrow>
                   es ! Suc j - es ! j < es ! Suc i - es ! i))"
proof -
  have a: "scan_times v autoRepeat st ss =
             map (Pair k) (spec_press_events t0 None (map now ss))"
    unfolding t0 by (rule press_trace [OF k on held fresh])
  then have e: "es = spec_press_events t0 None (map now ss)"
    by (simp add: es comp_def)
  have b: "successively
             (\<lambda>a b. (b - t0 \<le> 1000 \<longrightarrow> 300 < b - a \<and> b - a \<le> 300 + d) \<and>
                    (1000 < a - t0 \<longrightarrow> 60 < b - a \<and> b - a \<le> 60 + d)) es \<and>
           (\<forall>i j. Suc i < length es \<and> es ! Suc i - t0 \<le> 1000 \<and>
                  Suc j < length es \<and> 1000 < es ! j - t0 \<longrightarrow>
                  es ! Suc j - es ! j < es ! Suc i - es ! i)"
    if d: "d \<le> 240" and p: "polled_within d t0 t0 (map now ss)"
  proof -
    have s: "successively
               (\<lambda>a b. (b - t0 \<le> 1000 \<longrightarrow> 300 < b - a \<and> b - a \<le> 300 + d) \<and>
                      (1000 < a - t0 \<longrightarrow> 60 < b - a \<and> b - a \<le> 60 + d)) es"
      unfolding e by (rule gaps_pending [OF d p])
    have "es ! Suc j - es ! j < es ! Suc i - es ! i"
      if "Suc i < length es \<and> es ! Suc i - t0 \<le> 1000 \<and> Suc j < length es \<and> 1000 < es ! j - t0"
      for i j
      using that by (intro gaps_compare [OF d s]) simp_all
    with s show ?thesis by blast
  qed
  from a b show ?thesis by blast
qed

theorem autorepeat_period_from_press_start_witness:
  "scan_times default_build AUTOREPEAT_ON (power_on erased)
     [at_ms 0 0xF7, at_ms 100 0xF7, at_ms 200 0xF7, at_ms 300 0xF7, at_ms 400 0xF7,
      at_ms 500 0xF7, at_ms 600 0xF7, at_ms 700 0xF7, at_ms 800 0xF7, at_ms 900 0xF7,
      at_ms 1000 0xF7, at_ms 1100 0xF7, at_ms 1200 0xF7, at_ms 1300 0xF7] =
     [(UP, 100), (UP, 500), (UP, 900), (UP, 1100), (UP, 1200), (UP, 1300)] \<and>
   successively
     (\<lambda>a b. (b - 0 \<le> 1000 \<longrightarrow> 300 < b - a \<and> b - a \<le> 300 + 100) \<and>
            (1000 < a - 0 \<longrightarrow> 60 < b - a \<and> b - a \<le> 60 + 100))
     [100, 500, 900, 1100, 1200, 1300 :: 32 word]"
proof -
  let ?ss = "[at_ms 0 0xF7, at_ms 100 0xF7, at_ms 200 0xF7, at_ms 300 0xF7, at_ms 400 0xF7,
      at_ms 500 0xF7, at_ms 600 0xF7, at_ms 700 0xF7, at_ms 800 0xF7, at_ms 900 0xF7,
      at_ms 1000 0xF7, at_ms 1100 0xF7, at_ms 1200 0xF7, at_ms 1300 0xF7]"
  have o: "only_closed default_build UP (at_ms t 0xF7)" for t
    by (simp add: only_closed_def is_closed_def fsPin_def at_ms_def default_build_def
          MODE_FS_PIN_def PATCH_UP_FS_PIN_def PATCH_DOWN_FS_PIN_def GPIO_PIN_3_def
          GPIO_PIN_4_def UP_def DOWN_def MODE_def)
  have on: "AUTOREPEAT_ON \<noteq> AUTOREPEAT_OFF"
    by (simp add: AUTOREPEAT_ON_def AUTOREPEAT_OFF_def)
  have f: "state (fsArr (power_on erased) UP) = FS_UP"
    by (simp add: power_on_def)
  have h: "\<forall>s\<in>set ?ss. only_closed default_build UP s"
    by (simp add: o)
  have sp: "spec_press_events 0 None (map now ?ss) = [100, 500, 900, 1100, 1200, 1300]"
    by (simp add: at_ms_def spec_repeat_period_def)
  have pw: "polled_within 100 0 0 (map now ?ss)"
    by (simp add: at_ms_def)
  have t: "0 = now (hd ?ss)" by (simp add: at_ms_def)
  note inst = autorepeat_period_from_press_start [OF _ on h f t refl, of 100]
  from inst [THEN conjunct1] sp
  have a: "scan_times default_build AUTOREPEAT_ON (power_on erased) ?ss =
             [(UP, 100), (UP, 500), (UP, 900), (UP, 1100), (UP, 1200), (UP, 1300)]"
    by simp
  from inst [THEN conjunct2] pw a
  have "successively
     (\<lambda>a b. (b - 0 \<le> 1000 \<longrightarrow> 300 < b - a \<and> b - a \<le> 300 + 100) \<and>
            (1000 < a - 0 \<longrightarrow> 60 < b - a \<and> b - a \<le> 60 + 100))
     [100, 500, 900, 1100, 1200, 1300 :: 32 word]"
    by simp
  with a show ?thesis by blast
qed

section \<open>Two-switch MODE emulation\<close>

text \<open>
  C3, as the specification states it: in the two-switch build a scan iteration that
  reads the UP and DOWN lines both closed gives MODE and never UP or DOWN, for every
  prior state, also when the debounce time of one switch had elapsed before the other
  closed. The comment at the reset in \<open>scanFS\<close> has the same intent: the button
  pressed first would send a patch change a little before the mode change, which is
  undesirable, so the states of both switches are reset when both are pressed. The
  code misses it: the reset stands under \<open>i == MODE\<close>, and the loop reaches
  \<open>i = UP\<close> and \<open>i = DOWN\<close>, with their \<open>return i\<close>, before it.
  The code evaluated from power-on in the default build: UP closed alone at ticks 0
  and 50 (no event), both lines closed at tick 51. \<open>scanFS\<close> returns UP in the pass
  that reads both lines closed; with both lines held on, a caller that scans again
  receives UP and then MODE.
\<close>

theorem due_switch_returns_before_mode_reset:
  "is_closed default_build (at_ms 51 0xE7) UP \<and> is_closed default_build (at_ms 51 0xE7) DOWN \<and>
   fst (scanFS default_build AUTOREPEAT_OFF 0 (power_on erased)
          [at_ms 0 0xF7, at_ms 50 0xF7]) = None \<and>
   fst (scanFS default_build AUTOREPEAT_OFF 0 (power_on erased)
          [at_ms 0 0xF7, at_ms 50 0xF7, at_ms 51 0xE7]) = Some UP \<and>
   snd (snd (scanFS default_build AUTOREPEAT_OFF 0 (power_on erased)
          [at_ms 0 0xF7, at_ms 50 0xF7, at_ms 51 0xE7])) = [] \<and>
   fst (scan_events default_build AUTOREPEAT_OFF 0 (power_on erased)
          [at_ms 0 0xF7, at_ms 50 0xF7, at_ms 51 0xE7, at_ms 52 0xE7, at_ms 103 0xE7]) =
     [UP, MODE]"
  by code_simp

section \<open>Scroll mode\<close>

declare mode2_while.simps [simp del] configMIDI.simps [simp del] configDisplay.simps [simp del]

lemma scanFS_frame:
  "scanFS v a t st ss = (r, st', rest) \<Longrightarrow> st' = st\<lparr>fsArr := fsArr st'\<rparr>"
  by (auto simp: scanFS_alt split: prod.splits)

lemma mode2_while_frame:
  "mode2_while v n st ss = (fin, n', st', rest) \<Longrightarrow> st' = st\<lparr>fsArr := fsArr st'\<rparr>"
proof (induction v n st ss arbitrary: fin n' st' rest rule: mode2_while.induct)
  case (1 v n st ss)
  obtain r st1 rest1 where s: "scanFS v AUTOREPEAT_ON 0 st ss = (r, st1, rest1)"
    by (metis surj_pair)
  from scanFS_frame [OF s] have f: "st1 = st\<lparr>fsArr := fsArr st1\<rparr>" .
  show ?case
  proof (cases r)
    case None
    with s "1.prems" f show ?thesis by (simp add: mode2_while.simps)
  next
    case (Some e)
    note IH = "1.IH" [OF s [symmetric, unfolded Some] refl refl]
    consider "e = UP" | "e \<noteq> UP" "e = DOWN" | "e \<noteq> UP" "e \<noteq> DOWN" "e = MODE"
      | "e \<noteq> UP" "e \<noteq> DOWN" "e \<noteq> MODE" by blast
    then show ?thesis
    proof cases
      case 1
      with s Some "1.prems" have "mode2_while v (mode2_UP st1 n) st1 rest1 = (fin, n', st', rest)"
        by (simp add: mode2_while.simps [of v n st ss])
      from IH(1) [OF 1 this] f show ?thesis by (metis lasc.surjective lasc.update_convs(1))
    next
      case 2
      with s Some "1.prems" have "mode2_while v (mode2_DOWN st1 n) st1 rest1 = (fin, n', st', rest)"
        by (simp add: mode2_while.simps [of v n st ss])
      from IH(2) [OF 2 this] f show ?thesis by (metis lasc.surjective lasc.update_convs(1))
    next
      case 3
      with s Some "1.prems" f show ?thesis by (simp add: mode2_while.simps [of v n st ss])
    next
      case 4
      with s Some "1.prems" have "mode2_while v n st1 rest1 = (fin, n', st', rest)"
        by (simp add: mode2_while.simps [of v n st ss])
      from IH(3) [OF 4 this] f show ?thesis by (metis lasc.surjective lasc.update_convs(1))
    qed
  qed
qed


lemma mode2_events_range:
  "range_ix a = range_ix b \<Longrightarrow> mode2_events a n es = mode2_events b n es"
  by (induction es arbitrary: n) (simp_all add: mode2_UP_def mode2_DOWN_def)

lemma scanFS_range:
  "scanFS v a t st ss = (r, st', rest) \<Longrightarrow> range_ix st' = range_ix st"
  using scanFS_frame [of v a t st ss r st' rest]
  by (metis lasc.select_convs(4) lasc.surjective lasc.update_convs(1))

lemma mode2_while_events:
  "mode2_while v n st ss = (fin, n', st', rest) \<Longrightarrow>
   n' = mode2_events st n
          (takeWhile (\<lambda>e. e \<noteq> MODE) (fst (scan_events v AUTOREPEAT_ON 0 st ss))) \<and>
   fin = (MODE \<in> set (fst (scan_events v AUTOREPEAT_ON 0 st ss)))"
proof (induction v n st ss arbitrary: fin n' st' rest rule: mode2_while.induct)
  case (1 v n st ss)
  obtain r st1 rest1 where s: "scanFS v AUTOREPEAT_ON 0 st ss = (r, st1, rest1)"
    by (metis surj_pair)
  from scanFS_range [OF s] have g: "range_ix st1 = range_ix st" .
  let ?es = "fst (scan_events v AUTOREPEAT_ON 0 st1 rest1)"
  show ?case
  proof (cases r)
    case None
    with s "1.prems" show ?thesis
      by (simp add: mode2_while.simps [of v n st ss] scan_events_None)
  next
    case (Some e)
    with s have ev: "fst (scan_events v AUTOREPEAT_ON 0 st ss) = e # ?es"
      by (simp add: scan_events_Some)
    note IH = "1.IH" [OF s [symmetric, unfolded Some] refl refl]
    consider "e = UP" | "e \<noteq> UP" "e = DOWN" | "e \<noteq> UP" "e \<noteq> DOWN" "e = MODE"
      | "e \<noteq> UP" "e \<noteq> DOWN" "e \<noteq> MODE" by blast
    then show ?thesis
    proof cases
      case 1
      with s Some "1.prems" have "mode2_while v (mode2_UP st1 n) st1 rest1 = (fin, n', st', rest)"
        by (simp add: mode2_while.simps [of v n st ss])
      from IH(1) [OF 1 this] 1 g show ?thesis
        by (simp add: ev mode2_events_range [of st1 st] mode2_UP_def)
    next
      case 2
      with s Some "1.prems" have "mode2_while v (mode2_DOWN st1 n) st1 rest1 = (fin, n', st', rest)"
        by (simp add: mode2_while.simps [of v n st ss])
      from IH(2) [OF 2 this] 2 g show ?thesis
        by (simp add: ev mode2_events_range [of st1 st] mode2_DOWN_def)
    next
      case 3
      with s Some "1.prems" show ?thesis
        by (simp add: mode2_while.simps [of v n st ss] ev)
    next
      case 4
      with s Some "1.prems" have "mode2_while v n st1 rest1 = (fin, n', st', rest)"
        by (simp add: mode2_while.simps [of v n st ss])
      from IH(3) [OF 4 this] 4 g show ?thesis
        by (simp add: ev mode2_events_range [of st1 st])
    qed
  qed
qed

text \<open>
  C5. Whatever the samples, and so whatever sequence of UP and DOWN activations
  \<open>scanFS\<close> returns, the loop of \<open>mode2\<close> leaves the committed patch and the bytes
  sent as they were: \<open>st'\<close> is the state and \<open>n'\<close> the working value when the loop
  ends (\<open>fin\<close>: by MODE; otherwise the samples ended inside it), and \<open>n'\<close> is the
  start value stepped by the UP and DOWN activations before the first MODE. On MODE, \<open>mode2\<close>
  copies the working value to the committed patch and calls \<open>sendMidiPC\<close> once: one
  program-change message \<open>0xC0 | channel\<close>, \<open>n' % 128\<close>, after its bank-select
  prefix when the bank is to be sent. The witness is the example of the claim: three
  UP steps from patch 10 in range 0, then MODE.
\<close>

theorem scroll_mode_commits_once:
  assumes w: "mode2_while v n st ss = (fin, n', st', rest)"
  shows "uart st' = uart st \<and> midiPatchNo st' = midiPatchNo st \<and>
         n' = mode2_events st n
                (takeWhile (\<lambda>e. e \<noteq> MODE) (fst (scan_events v AUTOREPEAT_ON 0 st ss))) \<and>
         fin = (MODE \<in> set (fst (scan_events v AUTOREPEAT_ON 0 st ss))) \<and>
         (n = midiPatchNo st \<longrightarrow>
            mode2 v st ss =
              (if fin then (True, sendMidiPC v n' (st'\<lparr>midiPatchNo := n'\<rparr>), rest)
               else (False, st', rest))) \<and>
         midiPatchNo (sendMidiPC v n' (st'\<lparr>midiPatchNo := n'\<rparr>)) = n' \<and>
         uart (sendMidiPC v n' (st'\<lparr>midiPatchNo := n'\<rparr>)) =
           uart st @
           (if sendMIDIBank v \<noteq> 0 \<or> range_ix st \<noteq> 0
            then [MIDI_CC OR midiChannel st, 0x00, ucast (n' div 128)] else []) @
           [MIDI_PC OR midiChannel st, ucast (n' mod 128)]"
proof -
  from mode2_while_frame [OF w] have f: "st' = st\<lparr>fsArr := fsArr st'\<rparr>" .
  then have keep: "uart st' = uart st" "midiPatchNo st' = midiPatchNo st"
    "range_ix st' = range_ix st" "midiChannel st' = midiChannel st"
    by (metis lasc.select_convs(2,3,4,8) lasc.surjective lasc.update_convs(1))+
  have m: "mode2 v st ss =
             (if fin then (True, sendMidiPC v n' (st'\<lparr>midiPatchNo := n'\<rparr>), rest)
              else (False, st', rest))"
    if "n = midiPatchNo st"
    using w that by (simp add: mode2_def)
  show ?thesis using keep m mode2_while_events [OF w] by (simp add: uart_sendMidiPC)
qed

theorem scroll_mode_commits_once_witness:
  "(case mode2_while default_build 10 ((power_on erased)\<lparr>midiPatchNo := 10\<rparr>)
           [at_ms 0 0xF7, at_ms 51 0xF7, at_ms 352 0xF7, at_ms 653 0xF7, at_ms 700 0xFF] of
      (fin, n', st', rest) \<Rightarrow> \<not> fin \<and> n' = 13 \<and> midiPatchNo st' = 10 \<and> uart st' = []) \<and>
   (case mode2 default_build ((power_on erased)\<lparr>midiPatchNo := 10\<rparr>)
           [at_ms 0 0xF7, at_ms 51 0xF7, at_ms 352 0xF7, at_ms 653 0xF7, at_ms 700 0xFF,
            at_ms 701 0xE7, at_ms 752 0xE7] of
      (returned, st', rest) \<Rightarrow>
        returned \<and> midiPatchNo st' = 13 \<and> uart st' = [0xB0, 0x00, 0x00, 0xC0, 13]) \<and>
   fst (scan_events default_build AUTOREPEAT_ON 0 ((power_on erased)\<lparr>midiPatchNo := 10\<rparr>)
          [at_ms 0 0xF7, at_ms 51 0xF7, at_ms 352 0xF7, at_ms 653 0xF7, at_ms 700 0xFF,
           at_ms 701 0xE7, at_ms 752 0xE7]) = [UP, UP, UP, MODE]"
proof -
  let ?st = "(power_on erased)\<lparr>midiPatchNo := 10\<rparr>"
  let ?ups = "[at_ms 0 0xF7, at_ms 51 0xF7, at_ms 352 0xF7, at_ms 653 0xF7, at_ms 700 0xFF]"
  let ?all = "[at_ms 0 0xF7, at_ms 51 0xF7, at_ms 352 0xF7, at_ms 653 0xF7, at_ms 700 0xFF,
               at_ms 701 0xE7, at_ms 752 0xE7]"
  let ?w1 = "mode2_while default_build 10 ?st ?ups"
  let ?w2 = "mode2_while default_build 10 ?st ?all"
  have e1: "fst ?w1 = False" "fst (snd ?w1) = 13" by code_simp+
  have e2: "fst ?w2 = True" "fst (snd ?w2) = 13" "snd (snd (snd ?w2)) = []" by code_simp+
  have c: "midiChannel ?st = 0" "range_ix ?st = 0" "uart ?st = []" "midiPatchNo ?st = 10"
    by (simp_all add: power_on_def)
  have sb: "sendMIDIBank default_build = 1"
    by (simp add: sendMIDIBank_def default_build_def)
  have p1: "?w1 = (fst ?w1, fst (snd ?w1), fst (snd (snd ?w1)), snd (snd (snd ?w1)))"
    and p2: "?w2 = (fst ?w2, fst (snd ?w2), fst (snd (snd ?w2)), snd (snd (snd ?w2)))"
    by simp_all
  from scroll_mode_commits_once [OF p1]
  have a: "uart (fst (snd (snd ?w1))) = [] \<and> midiPatchNo (fst (snd (snd ?w1))) = 10"
    by (simp add: c)
  from scroll_mode_commits_once [OF p2]
  have b: "mode2 default_build ?st ?all =
             (True, sendMidiPC default_build 13 ((fst (snd (snd ?w2)))\<lparr>midiPatchNo := 13\<rparr>), [])"
    and b': "midiPatchNo (sendMidiPC default_build 13 ((fst (snd (snd ?w2)))\<lparr>midiPatchNo := 13\<rparr>)) = 13"
    and b'': "uart (sendMidiPC default_build 13 ((fst (snd (snd ?w2)))\<lparr>midiPatchNo := 13\<rparr>)) =
           [0xB0, 0x00, 0x00, 0xC0, 13]"
    by (simp_all add: c e2 sb MIDI_CC_def MIDI_PC_def)
  have ev: "fst (scan_events default_build AUTOREPEAT_ON 0 ?st ?all) = [UP, UP, UP, MODE]"
    by code_simp
  show ?thesis using a e1 b b' b'' ev by (simp add: split_beta)
qed

end
